theory Spec2Isabelle
  imports Complex_Main
begin

section \<open>Conventions of the embedding\<close>

text \<open>
  The two translation units \<^verbatim>\<open>finance_calc.cpp\<close> and \<^verbatim>\<open>indicators.cpp\<close> compute on
  \<^verbatim>\<open>double\<close>. A finite \<^verbatim>\<open>double\<close> is embedded as a \<^typ>\<open>real\<close> and the arithmetic as
  exact real arithmetic: rounding, overflow and underflow are not represented. What
  leaves the reals is an explicit value of the model:
  \<^item> the sentinel \<^verbatim>\<open>std::numeric_limits<double>::quiet_NaN()\<close> that \<^verbatim>\<open>calculate_xirr\<close>
    returns is the constructor \<open>NaN\<close> of the result type;
  \<^item> \<^verbatim>\<open>std::pow(b, e)\<close> is \<open>b powr e\<close> for a positive base \<open>b\<close>; for any other base the
    model stops with \<open>PowDomain\<close> (IEEE arithmetic continues there with an infinity or
    a NaN, which the model does not follow);
  \<^item> a floating-point division whose divisor is zero stops the model with \<open>DivByZero\<close>
    for the same reason;
  \<^item> an index into a \<^verbatim>\<open>std::vector\<close> or into the input buffer that is not below its
    size is undefined behaviour of the program; the model stops with \<open>OutOfBounds\<close>.
\<close>

datatype error = OutOfBounds | DivByZero | PowDomain

section \<open>Cash-flow valuation and the rate solver\<close>

record CashFlow =
  days_from_start :: real
  amount :: real

definition pow :: "real \<Rightarrow> real \<Rightarrow> error + real" where
  "pow b e = (if 0 < b then Inr (b powr e) else Inl PowDomain)"

text \<open>The loop of \<^verbatim>\<open>calculate_npv\<close>, with the running sum \<open>npv\<close> as accumulator.\<close>

fun npv_loop :: "CashFlow list \<Rightarrow> real \<Rightarrow> real \<Rightarrow> error + real" where
  "npv_loop [] rate npv = Inr npv"
| "npv_loop (cf # cfs) rate npv =
     (let years = days_from_start cf / 365.25 in
      case pow (1.0 + rate) years of
        Inl e \<Rightarrow> Inl e
      | Inr p \<Rightarrow> npv_loop cfs rate (npv + amount cf / p))"

definition calculate_npv :: "CashFlow list \<Rightarrow> real \<Rightarrow> error + real" where
  "calculate_npv cashflows rate = npv_loop cashflows rate 0.0"

text \<open>The loop of \<^verbatim>\<open>calculate_npv_derivative\<close>.\<close>

fun npv_derivative_loop :: "CashFlow list \<Rightarrow> real \<Rightarrow> real \<Rightarrow> error + real" where
  "npv_derivative_loop [] rate derivative = Inr derivative"
| "npv_derivative_loop (cf # cfs) rate derivative =
     (let years = days_from_start cf / 365.25 in
      case pow (1.0 + rate) (years + 1.0) of
        Inl e \<Rightarrow> Inl e
      | Inr p \<Rightarrow> npv_derivative_loop cfs rate (derivative + - years * amount cf / p))"

definition calculate_npv_derivative :: "CashFlow list \<Rightarrow> real \<Rightarrow> error + real" where
  "calculate_npv_derivative cashflows rate = npv_derivative_loop cashflows rate 0.0"

definition MAX_NEWTON_ITERATIONS :: nat where "MAX_NEWTON_ITERATIONS = 50"
definition MAX_BINARY_ITERATIONS :: nat where "MAX_BINARY_ITERATIONS = 100"
definition TOLERANCE :: real where "TOLERANCE = 1 / 10000000"
definition MIN_RATE :: real where "MIN_RATE = - 999 / 1000"
definition MAX_RATE :: real where "MAX_RATE = 10"

text \<open>
  The Newton phase of \<^verbatim>\<open>calculate_xirr\<close> ends in one of three ways, which the model
  names: the \<^verbatim>\<open>return rate\<close> of the convergence check on the present value
  (\<open>AcceptNpv\<close>), the \<^verbatim>\<open>return rate\<close> after a converged step (\<open>AcceptStep\<close>), and the
  fall through to the bisection (\<open>Fallback\<close>), reached by either \<^verbatim>\<open>break\<close> or by the
  exhausted iteration count.
\<close>

datatype newton_exit = AcceptNpv real | AcceptStep real | Fallback

text \<open>
  \<open>newton_loop k cashflows rate\<close> runs the \<open>k\<close> iterations that remain of the \<^verbatim>\<open>for\<close>
  loop over \<^verbatim>\<open>i < MAX_NEWTON_ITERATIONS\<close>, the variable \<^verbatim>\<open>rate\<close> holding \<open>rate\<close>.
\<close>

fun newton_loop :: "nat \<Rightarrow> CashFlow list \<Rightarrow> real \<Rightarrow> error + newton_exit" where
  "newton_loop 0 cashflows rate = Inr Fallback"
| "newton_loop (Suc k) cashflows rate =
     (case calculate_npv cashflows rate of
        Inl e \<Rightarrow> Inl e
      | Inr npv \<Rightarrow>
          if \<bar>npv\<bar> < TOLERANCE \<and> rate > MIN_RATE \<and> rate < MAX_RATE then Inr (AcceptNpv rate)
          else
            (case calculate_npv_derivative cashflows rate of
               Inl e \<Rightarrow> Inl e
             | Inr derivative \<Rightarrow>
                 if \<bar>derivative\<bar> < 1 / 10000000000 then Inr Fallback
                 else
                   (let new_rate = max MIN_RATE (min MAX_RATE (rate - npv / derivative)) in
                    if \<bar>new_rate - rate\<bar> < TOLERANCE then
                      (case calculate_npv cashflows new_rate of
                         Inl e \<Rightarrow> Inl e
                       | Inr npv' \<Rightarrow>
                           if \<bar>npv'\<bar> < TOLERANCE then Inr (AcceptStep new_rate)
                           else Inr Fallback)
                    else newton_loop k cashflows new_rate)))"

text \<open>The value \<^verbatim>\<open>calculate_xirr\<close> returns: a rate, or the quiet NaN.\<close>

datatype xirr_result = Rate real | NaN

text \<open>
  \<open>binary_loop k cashflows low high npv_low\<close> runs the \<open>k\<close> iterations that remain of the
  bisection loop. The variable \<^verbatim>\<open>npv_high\<close> is written but never read, so it is not
  carried.
\<close>

fun binary_loop :: "nat \<Rightarrow> CashFlow list \<Rightarrow> real \<Rightarrow> real \<Rightarrow> real \<Rightarrow> error + xirr_result" where
  "binary_loop 0 cashflows low high npv_low = Inr NaN"
| "binary_loop (Suc k) cashflows low high npv_low =
     (let mid = (low + high) / 2.0 in
      case calculate_npv cashflows mid of
        Inl e \<Rightarrow> Inl e
      | Inr npv_mid \<Rightarrow>
          if \<bar>npv_mid\<bar> < TOLERANCE then Inr (Rate mid)
          else
            (let (low', high', npv_low') =
                   (if npv_mid * npv_low < 0 then (low, mid, npv_low)
                    else (mid, high, npv_mid)) in
             if high' - low' < TOLERANCE then Inr (Rate ((low' + high') / 2.0))
             else binary_loop k cashflows low' high' npv_low'))"

text \<open>The fallback of \<^verbatim>\<open>calculate_xirr\<close>: the bracket check and the bisection.\<close>

definition binary_search :: "CashFlow list \<Rightarrow> error + xirr_result" where
  "binary_search cashflows =
     (case calculate_npv cashflows MIN_RATE of
        Inl e \<Rightarrow> Inl e
      | Inr npv_low \<Rightarrow>
          (case calculate_npv cashflows MAX_RATE of
             Inl e \<Rightarrow> Inl e
           | Inr npv_high \<Rightarrow>
               if npv_low * npv_high > 0 then Inr NaN
               else binary_loop MAX_BINARY_ITERATIONS cashflows MIN_RATE MAX_RATE npv_low))"

definition calculate_xirr :: "CashFlow list \<Rightarrow> real \<Rightarrow> error + xirr_result" where
  "calculate_xirr cashflows initial_guess =
     (if length cashflows < 2 then Inr NaN
      else
        (case newton_loop MAX_NEWTON_ITERATIONS cashflows initial_guess of
           Inl e \<Rightarrow> Inl e
         | Inr (AcceptNpv rate) \<Rightarrow> Inr (Rate rate)
         | Inr (AcceptStep rate) \<Rightarrow> Inr (Rate rate)
         | Inr Fallback \<Rightarrow> binary_search cashflows))"

section \<open>Technical indicators\<close>

text \<open>
  A price buffer (\<^verbatim>\<open>py::array_t<double>\<close>) and a \<^verbatim>\<open>std::vector<double>\<close> are lists of
  reals; \<^verbatim>\<open>std::vector<double> v(n, 0.0)\<close> is \<open>replicate n 0\<close>. A \<^verbatim>\<open>size_t\<close> index is a
  natural number, an \<^verbatim>\<open>int\<close> parameter an integer; the conversion of an \<^verbatim>\<open>int\<close> to
  \<^verbatim>\<open>size_t\<close> wraps modulo \<open>2 ^ 64\<close>.

  In this embedding the arithmetic is exact. It serves for the lengths of the outputs,
  their placeholders and the indices read, which do not depend on the values computed,
  and for the statistics of the volatility bands. The range of the oscillator and the
  guard of the correlation depend on overflow and on rounding: they are stated on the
  second embedding of these two functions, over double arithmetic, further down.
\<close>

definition size_t_of_int :: "int \<Rightarrow> nat" where
  "size_t_of_int k = nat (k mod 2 ^ 64)"

text \<open>The values of an \<^verbatim>\<open>int\<close> parameter (32 bits).\<close>

definition is_c_int :: "int \<Rightarrow> bool" where
  "is_c_int k \<longleftrightarrow> - (2 ^ 31) \<le> k \<and> k < 2 ^ 31"

definition fdiv :: "real \<Rightarrow> real \<Rightarrow> error + real" where
  "fdiv a b = (if b = 0 then Inl DivByZero else Inr (a / b))"

subsection \<open>\<^verbatim>\<open>calculate_rsi\<close>\<close>

text \<open>
  The first loop, over \<^verbatim>\<open>size_t i = 1; i < n\<close>. Its reads of \<^verbatim>\<open>ptr[i]\<close> and \<^verbatim>\<open>ptr[i-1]\<close>
  and its writes are in range by the loop condition.
\<close>

function changes_loop :: "real list \<Rightarrow> nat \<Rightarrow> real list \<Rightarrow> real list \<Rightarrow> real list \<times> real list" where
  "changes_loop ptr i gains losses =
     (if i < length ptr then
        (let change = ptr ! i - ptr ! (i - 1) in
         if change > 0 then changes_loop ptr (i + 1) (gains[i := change]) losses
         else changes_loop ptr (i + 1) gains (losses[i := - change]))
      else (gains, losses))"
  by pat_completeness auto
termination
  by (relation "measure (\<lambda>(ptr, i, gains, losses). length ptr - i)") auto

declare changes_loop.simps [simp del]

text \<open>
  The seeding loop, over \<^verbatim>\<open>int i = 1; i <= period\<close>. Nothing bounds \<^verbatim>\<open>i\<close> by the size of
  the vectors: \<^verbatim>\<open>gains[i]\<close> and \<^verbatim>\<open>losses[i]\<close> are read whatever \<^verbatim>\<open>n\<close> is.
\<close>

function seed_loop :: "real list \<Rightarrow> real list \<Rightarrow> int \<Rightarrow> int \<Rightarrow> real \<Rightarrow> real \<Rightarrow> error + real \<times> real" where
  "seed_loop gains losses period i avg_gain avg_loss =
     (if i \<le> period then
        (if 0 \<le> i \<and> nat i < length gains \<and> nat i < length losses then
           seed_loop gains losses period (i + 1)
             (avg_gain + gains ! nat i) (avg_loss + losses ! nat i)
         else Inl OutOfBounds)
      else Inr (avg_gain, avg_loss))"
  by pat_completeness auto
termination
  by (relation "measure (\<lambda>(gains, losses, period, i, avg_gain, avg_loss). nat (period + 1 - i))") auto

declare seed_loop.simps [simp del]

text \<open>One step of Wilder's smoothing, \<^verbatim>\<open>((avg * (period - 1)) + x) / period\<close>.\<close>

definition wilder :: "real \<Rightarrow> int \<Rightarrow> real \<Rightarrow> error + real" where
  "wilder avg period x = fdiv ((avg * real_of_int (period - 1)) + x) (real_of_int period)"

text \<open>The value stored in \<^verbatim>\<open>rsi[i]\<close>.\<close>

definition rsi_value :: "real \<Rightarrow> real \<Rightarrow> error + real" where
  "rsi_value avg_gain avg_loss =
     (if avg_loss = 0.0 then Inr 100.0
      else
        (let rs = avg_gain / avg_loss in
         case fdiv 100.0 (1.0 + rs) of
           Inl e \<Rightarrow> Inl e
         | Inr q \<Rightarrow> Inr (100.0 - q)))"

text \<open>The smoothing loop, over \<^verbatim>\<open>size_t i = period; i < n\<close>.\<close>

function rsi_loop ::
  "real list \<Rightarrow> real list \<Rightarrow> int \<Rightarrow> nat \<Rightarrow> real \<Rightarrow> real \<Rightarrow> real list \<Rightarrow> error + real list" where
  "rsi_loop gains losses period i avg_gain avg_loss rsi =
     (if i < length rsi then
        (case wilder avg_gain period (gains ! i) of
           Inl e \<Rightarrow> Inl e
         | Inr avg_gain' \<Rightarrow>
             (case wilder avg_loss period (losses ! i) of
                Inl e \<Rightarrow> Inl e
              | Inr avg_loss' \<Rightarrow>
                  (case rsi_value avg_gain' avg_loss' of
                     Inl e \<Rightarrow> Inl e
                   | Inr v \<Rightarrow>
                       rsi_loop gains losses period (i + 1) avg_gain' avg_loss' (rsi[i := v]))))
      else Inr rsi)"
  by pat_completeness auto
termination
  by (relation "measure (\<lambda>(gains, losses, period, i, avg_gain, avg_loss, rsi). length rsi - i)") auto

declare rsi_loop.simps [simp del]

definition calculate_rsi :: "real list \<Rightarrow> int \<Rightarrow> error + real list" where
  "calculate_rsi prices period =
     (let n = length prices;
          rsi = replicate n 0.0;
          (gains, losses) = changes_loop prices 1 (replicate n 0.0) (replicate n 0.0)
      in
        case seed_loop gains losses period 1 0.0 0.0 of
          Inl e \<Rightarrow> Inl e
        | Inr (avg_gain, avg_loss) \<Rightarrow>
            (case fdiv avg_gain (real_of_int period) of
               Inl e \<Rightarrow> Inl e
             | Inr avg_gain' \<Rightarrow>
                 (case fdiv avg_loss (real_of_int period) of
                    Inl e \<Rightarrow> Inl e
                  | Inr avg_loss' \<Rightarrow>
                      rsi_loop gains losses period (size_t_of_int period) avg_gain' avg_loss' rsi)))"

subsection \<open>\<^verbatim>\<open>calculate_macd\<close>\<close>







subsection \<open>\<^verbatim>\<open>calculate_bollinger_bands\<close>\<close>

text \<open>
  The inner loops run over \<^verbatim>\<open>int j = 0; j < period\<close> and read \<^verbatim>\<open>ptr[i - j]\<close>, where the
  difference is taken in \<^verbatim>\<open>size_t\<close>: for \<open>j > i\<close> it wraps to an index beyond every
  buffer.
\<close>

function sum_loop :: "real list \<Rightarrow> nat \<Rightarrow> int \<Rightarrow> int \<Rightarrow> real \<Rightarrow> error + real" where
  "sum_loop ptr i period j sum_acc =
     (if j < period then
        (if 0 \<le> j \<and> nat j \<le> i \<and> i - nat j < length ptr then
           sum_loop ptr i period (j + 1) (sum_acc + ptr ! (i - nat j))
         else Inl OutOfBounds)
      else Inr sum_acc)"
  by pat_completeness auto
termination
  by (relation "measure (\<lambda>(ptr, i, period, j, sum_acc). nat (period - j))") auto

declare sum_loop.simps [simp del]

function variance_loop :: "real list \<Rightarrow> nat \<Rightarrow> int \<Rightarrow> real \<Rightarrow> int \<Rightarrow> real \<Rightarrow> error + real" where
  "variance_loop ptr i period mean j variance =
     (if j < period then
        (if 0 \<le> j \<and> nat j \<le> i \<and> i - nat j < length ptr then
           (let diff = ptr ! (i - nat j) - mean in
            variance_loop ptr i period mean (j + 1) (variance + diff * diff))
         else Inl OutOfBounds)
      else Inr variance)"
  by pat_completeness auto
termination
  by (relation "measure (\<lambda>(ptr, i, period, mean, j, variance). nat (period - j))") auto

declare variance_loop.simps [simp del]

text \<open>
  The body of the outer loop at index \<open>i\<close>: the values it stores in \<^verbatim>\<open>middle[i]\<close>,
  \<^verbatim>\<open>upper[i]\<close> and \<^verbatim>\<open>lower[i]\<close>. The argument of \<^verbatim>\<open>std::sqrt\<close> is a sum of squares over
  a positive count, or zero, so it is never negative.
\<close>

definition bollinger_body :: "real list \<Rightarrow> int \<Rightarrow> real \<Rightarrow> nat \<Rightarrow> error + real \<times> real \<times> real" where
  "bollinger_body ptr period num_std i =
     (case sum_loop ptr i period 0 0.0 of
        Inl e \<Rightarrow> Inl e
      | Inr sum_acc \<Rightarrow>
     case fdiv sum_acc (real_of_int period) of
        Inl e \<Rightarrow> Inl e
      | Inr mean \<Rightarrow>
     case variance_loop ptr i period mean 0 0.0 of
        Inl e \<Rightarrow> Inl e
      | Inr variance \<Rightarrow>
     case fdiv variance (real_of_int period) of
        Inl e \<Rightarrow> Inl e
      | Inr q \<Rightarrow>
          (let std = sqrt q in Inr (mean, mean + num_std * std, mean - num_std * std)))"

text \<open>The outer loop, over \<^verbatim>\<open>size_t i = period - 1; i < n\<close>.\<close>

function bollinger_loop ::
  "real list \<Rightarrow> int \<Rightarrow> real \<Rightarrow> nat \<Rightarrow> real list \<Rightarrow> real list \<Rightarrow> real list
   \<Rightarrow> error + real list \<times> real list \<times> real list" where
  "bollinger_loop ptr period num_std i middle upper lower =
     (if i < length ptr then
        (case bollinger_body ptr period num_std i of
           Inl e \<Rightarrow> Inl e
         | Inr (m, u, l) \<Rightarrow>
             bollinger_loop ptr period num_std (i + 1) (middle[i := m]) (upper[i := u]) (lower[i := l]))
      else Inr (middle, upper, lower))"
  by pat_completeness auto
termination
  by (relation "measure (\<lambda>(ptr, period, num_std, i, middle, upper, lower). length ptr - i)") auto

declare bollinger_loop.simps [simp del]

record BollingerBands =
  upper :: "real list"
  middle :: "real list"
  lower :: "real list"

definition calculate_bollinger_bands :: "real list \<Rightarrow> int \<Rightarrow> real \<Rightarrow> error + BollingerBands" where
  "calculate_bollinger_bands prices period num_std =
     (let n = length prices in
      case bollinger_loop prices period num_std (size_t_of_int (period - 1))
             (replicate n 0.0) (replicate n 0.0) (replicate n 0.0) of
        Inl e \<Rightarrow> Inl e
      | Inr (m, u, l) \<Rightarrow> Inr \<lparr>upper = u, middle = m, lower = l\<rparr>)"

subsection \<open>\<^verbatim>\<open>rolling_correlation\<close>\<close>







section \<open>The oscillator and the correlation over an arbitrary arithmetic\<close>


subsection \<open>\<^verbatim>\<open>calculate_rsi\<close>\<close>










subsection \<open>\<^verbatim>\<open>rolling_correlation\<close>\<close>








subsection \<open>Double arithmetic\<close>


definition OVERFLOW :: real where
  "OVERFLOW = 2 ^ 1024 - 2 ^ 970"













text \<open>
  Rounding to nearest, ties to even, with 53 significant bits and the least exponent
  of the format: the magnitude is brought to the form \<open>m * 2 powi e\<close> with
  \<open>2 ^ 52 \<le> m < 2 ^ 53\<close>, or with \<open>e = - 1074\<close> and a smaller \<open>m\<close>, and \<open>m\<close> is rounded to an
  integer.
\<close>

definition round_half_even :: "real \<Rightarrow> int" where
  "round_half_even m =
     (let f = \<lfloor>m\<rfloor>; d = m - of_int f in
      if d < 1 / 2 then f else if 1 / 2 < d then f + 1 else if even f then f else f + 1)"

function scale_down :: "real \<Rightarrow> int \<Rightarrow> real \<times> int" where
  "scale_down m e = (if 2 ^ 53 \<le> m then scale_down (m / 2) (e + 1) else (m, e))"
  by pat_completeness auto
termination
proof (relation "measure (\<lambda>(m, e). nat \<lfloor>m\<rfloor>)")
  show "wf (measure (\<lambda>(m::real, e::int). nat \<lfloor>m\<rfloor>))" by simp
next
  fix m :: real and e :: int
  assume m: "2 ^ 53 \<le> m"
  have "m / 2 + 1 \<le> m" using m by simp
  then have "\<lfloor>m / 2\<rfloor> + 1 \<le> \<lfloor>m\<rfloor>" by linarith
  moreover have "0 \<le> \<lfloor>m / 2\<rfloor>" "1 \<le> m" using m by simp_all
  ultimately show "((m / 2, e + 1), (m, e)) \<in> measure (\<lambda>(m, e). nat \<lfloor>m\<rfloor>)" by simp
qed

function scale_up :: "real \<Rightarrow> int \<Rightarrow> real \<times> int" where
  "scale_up m e = (if m < 2 ^ 52 \<and> - 1074 < e then scale_up (2 * m) (e - 1) else (m, e))"
  by pat_completeness auto
termination
  by (relation "measure (\<lambda>(m, e). nat (e + 1074))") auto

declare scale_down.simps [simp del] scale_up.simps [simp del]

definition ieee_round :: "real \<Rightarrow> real" where
  "ieee_round r =
     (if r = 0 then 0
      else
        (let (m, e) = scale_down \<bar>r\<bar> 0;
             (m', e') = scale_up m e
         in sgn r * of_int (round_half_even m') * 2 powi e'))"



section \<open>Notions used to state the properties\<close>

text \<open>
  The summands of \<^verbatim>\<open>calculate_npv\<close> and of \<^verbatim>\<open>calculate_npv_derivative\<close> for one cash
  flow, at a rate above \<open>- 1\<close>.
\<close>

definition npv_term :: "real \<Rightarrow> CashFlow \<Rightarrow> real" where
  "npv_term rate cf = amount cf / (1 + rate) powr (days_from_start cf / 365.25)"

definition derivative_term :: "real \<Rightarrow> CashFlow \<Rightarrow> real" where
  "derivative_term rate cf =
     - (days_from_start cf / 365.25) * amount cf / (1 + rate) powr (days_from_start cf / 365.25 + 1)"

text \<open>
  The end-to-end example of the specification, and the rate at which its present value
  is zero: \<open>1100 / (1 + r) powr (365 / 365.25) = 1000\<close>.
\<close>

definition example_flows :: "CashFlow list" where
  "example_flows = [\<lparr>days_from_start = 0, amount = - 1000\<rparr>, \<lparr>days_from_start = 365, amount = 1100\<rparr>]"

definition example_root :: real where
  "example_root = (11 / 10) powr (1461 / 1460) - 1"

text \<open>\<open>returns_within eps target res\<close>: the solver returned a rate, within \<open>eps\<close> of \<open>target\<close>.\<close>

fun returns_within :: "real \<Rightarrow> real \<Rightarrow> error + xirr_result \<Rightarrow> bool" where
  "returns_within eps target (Inr (Rate r)) = (\<bar>r - target\<bar> \<le> eps)"
| "returns_within eps target (Inr NaN) = False"
| "returns_within eps target (Inl e) = False"

text \<open>
  The trailing window of length \<open>w\<close> that ends at index \<open>i\<close>, its simple mean and its
  population standard deviation (the squared deviations are divided by the length).
\<close>

definition trailing_window :: "real list \<Rightarrow> nat \<Rightarrow> nat \<Rightarrow> real list" where
  "trailing_window xs w i = take w (drop (i + 1 - w) xs)"

definition mean :: "real list \<Rightarrow> real" where
  "mean xs = sum_list xs / real (length xs)"

definition population_std :: "real list \<Rightarrow> real" where
  "population_std xs = sqrt (sum_list (map (\<lambda>x. (x - mean xs) * (x - mean xs)) xs) / real (length xs))"

section \<open>Present value as a sum\<close>

lemma npv_loop_sum:
  "- 1 < rate \<Longrightarrow> npv_loop cfs rate acc = Inr (acc + sum_list (map (npv_term rate) cfs))"
  by (induction cfs arbitrary: acc) (simp_all add: pow_def npv_term_def Let_def)

lemma calculate_npv_sum:
  "- 1 < rate \<Longrightarrow> calculate_npv cfs rate = Inr (sum_list (map (npv_term rate) cfs))"
  by (simp add: calculate_npv_def npv_loop_sum)

lemma npv_derivative_loop_sum:
  "- 1 < rate \<Longrightarrow>
   npv_derivative_loop cfs rate acc = Inr (acc + sum_list (map (derivative_term rate) cfs))"
  by (induction cfs arbitrary: acc) (simp_all add: pow_def derivative_term_def Let_def)

lemma calculate_npv_derivative_sum:
  "- 1 < rate \<Longrightarrow>
   calculate_npv_derivative cfs rate = Inr (sum_list (map (derivative_term rate) cfs))"
  by (simp add: calculate_npv_derivative_def npv_derivative_loop_sum)

lemma sum_list_less:
  fixes f g :: "'a \<Rightarrow> real"
  assumes "\<forall>x\<in>set xs. f x \<le> g x" and "\<exists>x\<in>set xs. f x < g x"
  shows "sum_list (map f xs) < sum_list (map g xs)"
  using assms
proof (induction xs)
  case Nil
  then show ?case by simp
next
  case (Cons x xs)
  have le: "sum_list (map f xs) \<le> sum_list (map g xs)"
    using Cons.prems(1) by (intro sum_list_mono) simp
  show ?case
  proof (cases "f x < g x")
    case True
    with le show ?thesis by simp
  next
    case False
    with Cons.prems have "\<exists>x\<in>set xs. f x < g x" and "f x \<le> g x" by auto
    with Cons.IH Cons.prems(1) show ?thesis by simp
  qed
qed

lemma npv_term_antimono:
  assumes "- 1 < r1" "r1 < r2" "0 \<le> days_from_start cf"
    and "0 < days_from_start cf \<longrightarrow> 0 \<le> amount cf"
  shows "npv_term r2 cf \<le> npv_term r1 cf"
proof (cases "days_from_start cf = 0")
  case True
  with assms show ?thesis by (simp add: npv_term_def)
next
  case False
  with assms have y: "0 < days_from_start cf / 365.25" and a: "0 \<le> amount cf" by simp_all
  have "(1 + r1) powr (days_from_start cf / 365.25) < (1 + r2) powr (days_from_start cf / 365.25)"
    using assms(1,2) y by (intro powr_less_mono2) simp_all
  moreover have "0 < (1 + r1) powr (days_from_start cf / 365.25)" using assms(1) by simp
  ultimately show ?thesis
    unfolding npv_term_def using a by (intro frac_le) simp_all
qed

lemma npv_term_strict:
  assumes "- 1 < r1" "r1 < r2" "0 < days_from_start cf" "0 < amount cf"
  shows "npv_term r2 cf < npv_term r1 cf"
proof -
  have y: "0 < days_from_start cf / 365.25" using assms by simp
  have "(1 + r1) powr (days_from_start cf / 365.25) < (1 + r2) powr (days_from_start cf / 365.25)"
    using assms(1,2) y by (intro powr_less_mono2) simp_all
  moreover have "0 < (1 + r1) powr (days_from_start cf / 365.25)" using assms(1) by simp
  ultimately show ?thesis
    unfolding npv_term_def using assms(4) by (intro frac_less2) simp_all
qed

lemma derivative_term_nonpos:
  assumes "- 1 < r" "0 \<le> days_from_start cf" "0 < days_from_start cf \<longrightarrow> 0 \<le> amount cf"
  shows "derivative_term r cf \<le> 0"
proof -
  have "0 \<le> (days_from_start cf / 365.25) * amount cf"
    using assms by (cases "days_from_start cf = 0") simp_all
  moreover have "0 < (1 + r) powr (days_from_start cf / 365.25 + 1)" using assms(1) by simp
  ultimately have "0 \<le> (days_from_start cf / 365.25) * amount cf / (1 + r) powr (days_from_start cf / 365.25 + 1)"
    by (intro divide_nonneg_pos)
  then show ?thesis by (simp add: derivative_term_def)
qed

lemma derivative_term_neg:
  assumes "- 1 < r" "0 < days_from_start cf" "0 < amount cf"
  shows "derivative_term r cf < 0"
proof -
  have "0 < (days_from_start cf / 365.25) * amount cf"
    using assms by simp
  moreover have "0 < (1 + r) powr (days_from_start cf / 365.25 + 1)" using assms(1) by simp
  ultimately have "0 < (days_from_start cf / 365.25) * amount cf / (1 + r) powr (days_from_start cf / 365.25 + 1)"
    by (intro divide_pos_pos)
  then show ?thesis by (simp add: derivative_term_def)
qed

text \<open>
  Claim C5, as amended. For every cash-flow sequence whose offsets are nonnegative, in
  which no cash flow with a positive offset has a negative amount and at least one cash
  flow has a positive offset and a positive amount, \<open>calculate_npv\<close> is strictly
  decreasing in the rate on the rates above \<open>- 1\<close>, and \<open>calculate_npv_derivative\<close> is
  strictly negative there.
\<close>

theorem npv_strictly_decreasing:
  assumes offsets: "\<forall>cf\<in>set cashflows. 0 \<le> days_from_start cf"
    and signs: "\<forall>cf\<in>set cashflows. 0 < days_from_start cf \<longrightarrow> 0 \<le> amount cf"
    and some: "\<exists>cf\<in>set cashflows. 0 < days_from_start cf \<and> 0 < amount cf"
  shows "(\<forall>r1 r2. - 1 < r1 \<and> r1 < r2 \<longrightarrow>
           (\<exists>v1 v2. calculate_npv cashflows r1 = Inr v1 \<and> calculate_npv cashflows r2 = Inr v2
              \<and> v2 < v1))
       \<and> (\<forall>r. - 1 < r \<longrightarrow> (\<exists>d. calculate_npv_derivative cashflows r = Inr d \<and> d < 0))"
proof (intro conjI allI impI)
  fix r1 r2 :: real
  assume r: "- 1 < r1 \<and> r1 < r2"
  have "sum_list (map (npv_term r2) cashflows) < sum_list (map (npv_term r1) cashflows)"
  proof (rule sum_list_less)
    show "\<forall>cf\<in>set cashflows. npv_term r2 cf \<le> npv_term r1 cf"
      using offsets signs r by (auto intro: npv_term_antimono)
    show "\<exists>cf\<in>set cashflows. npv_term r2 cf < npv_term r1 cf"
      using some r by (auto intro: npv_term_strict)
  qed
  moreover from r have "- 1 < r2" by simp
  ultimately show "\<exists>v1 v2. calculate_npv cashflows r1 = Inr v1
      \<and> calculate_npv cashflows r2 = Inr v2 \<and> v2 < v1"
    using r by (simp add: calculate_npv_sum)
next
  fix r :: real
  assume r: "- 1 < r"
  have "sum_list (map (derivative_term r) cashflows) < sum_list (map (\<lambda>_. 0) cashflows)"
  proof (rule sum_list_less)
    show "\<forall>cf\<in>set cashflows. derivative_term r cf \<le> 0"
      using offsets signs r by (auto intro: derivative_term_nonpos)
    show "\<exists>cf\<in>set cashflows. derivative_term r cf < 0"
      using some r by (auto intro: derivative_term_neg)
  qed
  then show "\<exists>d. calculate_npv_derivative cashflows r = Inr d \<and> d < 0"
    using r by (simp add: calculate_npv_derivative_sum)
qed

theorem npv_strictly_decreasing_witness:
  "list_all (\<lambda>cf. 0 \<le> days_from_start cf)
     [\<lparr>days_from_start = 0, amount = - 1000\<rparr>, \<lparr>days_from_start = 365.25, amount = 1100\<rparr>]
   \<and> list_all (\<lambda>cf. 0 < days_from_start cf \<longrightarrow> 0 \<le> amount cf)
     [\<lparr>days_from_start = 0, amount = - 1000\<rparr>, \<lparr>days_from_start = 365.25, amount = 1100\<rparr>]
   \<and> (\<exists>cf\<in>set [\<lparr>days_from_start = 0, amount = - 1000\<rparr>, \<lparr>days_from_start = 365.25, amount = 1100\<rparr>].
      0 < days_from_start cf \<and> 0 < amount cf)
   \<and> (\<exists>v1 v2.
        calculate_npv [\<lparr>days_from_start = 0, amount = - 1000\<rparr>, \<lparr>days_from_start = 365.25, amount = 1100\<rparr>] 0
          = Inr v1
      \<and> calculate_npv [\<lparr>days_from_start = 0, amount = - 1000\<rparr>, \<lparr>days_from_start = 365.25, amount = 1100\<rparr>] 1
          = Inr v2
      \<and> v2 < v1)
   \<and> (\<exists>d.
        calculate_npv_derivative
          [\<lparr>days_from_start = 0, amount = - 1000\<rparr>, \<lparr>days_from_start = 365.25, amount = 1100\<rparr>] 0 = Inr d
      \<and> d < 0)"
proof -
  let ?C = "[\<lparr>days_from_start = 0, amount = - 1000\<rparr>, \<lparr>days_from_start = 365.25, amount = 1100\<rparr>]"
  have h1: "\<forall>cf\<in>set ?C. 0 \<le> days_from_start cf" by simp
  have h2: "\<forall>cf\<in>set ?C. 0 < days_from_start cf \<longrightarrow> 0 \<le> amount cf" by simp
  have h3: "\<exists>cf\<in>set ?C. 0 < days_from_start cf \<and> 0 < amount cf" by simp
  note mono = npv_strictly_decreasing [OF h1 h2 h3]
  have r: "- 1 < (0::real) \<and> (0::real) < 1" and r0: "- 1 < (0::real)" by simp_all
  from mono r have a: "\<exists>v1 v2. calculate_npv ?C 0 = Inr v1 \<and> calculate_npv ?C 1 = Inr v2 \<and> v2 < v1"
    by blast
  from mono r0 have b: "\<exists>d. calculate_npv_derivative ?C 0 = Inr d \<and> d < 0"
    by blast
  from h1 h2 h3 a b show ?thesis unfolding list_all_iff by blast
qed

text \<open>
  The claim as stated fails where a cash flow with a positive offset has a negative
  amount: for the single cash flow \<open>(365.25, - 100)\<close> the present value rises from
  \<open>- 100\<close> at rate \<open>0\<close> to \<open>- 50\<close> at rate \<open>1\<close>, and the derivative at rate \<open>0\<close> is
  \<open>100\<close>.
\<close>

theorem npv_increasing_counterexample:
  "0 < days_from_start \<lparr>days_from_start = 365.25, amount = - 100\<rparr>
   \<and> amount \<lparr>days_from_start = 365.25, amount = - 100\<rparr> \<noteq> 0
   \<and> calculate_npv [\<lparr>days_from_start = 365.25, amount = - 100\<rparr>] 0 = Inr (- 100)
   \<and> calculate_npv [\<lparr>days_from_start = 365.25, amount = - 100\<rparr>] 1 = Inr (- 50)
   \<and> calculate_npv_derivative [\<lparr>days_from_start = 365.25, amount = - 100\<rparr>] 0 = Inr 100"
  by (simp add: calculate_npv_def calculate_npv_derivative_def pow_def)

section \<open>Properties of the rate solver\<close>

text \<open>
  Claim C4. For every cash-flow sequence with fewer than two cash flows, the empty one
  included, and every initial guess, \<open>calculate_xirr\<close> returns the NaN sentinel: the
  result is a returned value (\<open>Inr\<close>), not a failure.
\<close>

theorem xirr_undersupplied_is_NaN:
  "length cashflows < 2 \<Longrightarrow> calculate_xirr cashflows initial_guess = Inr NaN"
  by (simp add: calculate_xirr_def)

theorem xirr_undersupplied_is_NaN_witness:
  "length [\<lparr>days_from_start = 0, amount = - 1000\<rparr>] < 2
   \<and> calculate_xirr [\<lparr>days_from_start = 0, amount = - 1000\<rparr>] (1 / 10) = Inr NaN"
  using xirr_undersupplied_is_NaN [of "[\<lparr>days_from_start = 0, amount = - 1000\<rparr>]" "1 / 10"]
  by simp

lemma newton_loop_accept_npv:
  "calculate_npv cashflows rate = Inr npv \<Longrightarrow> \<bar>npv\<bar> < TOLERANCE \<Longrightarrow>
   MIN_RATE < rate \<Longrightarrow> rate < MAX_RATE \<Longrightarrow>
   newton_loop (Suc k) cashflows rate = Inr (AcceptNpv rate)"
  by simp

lemma clamp_bounds:
  "MIN_RATE \<le> max MIN_RATE (min MAX_RATE x) \<and> max MIN_RATE (min MAX_RATE x) \<le> MAX_RATE"
  by (simp add: MIN_RATE_def MAX_RATE_def)

text \<open>What each exit of the Newton loop guarantees.\<close>

lemma newton_loop_exit:
  "newton_loop k cashflows rate = Inr ex \<Longrightarrow>
   (\<forall>r. ex = AcceptNpv r \<longrightarrow>
      (\<exists>npv. calculate_npv cashflows r = Inr npv \<and> \<bar>npv\<bar> < TOLERANCE)
      \<and> MIN_RATE < r \<and> r < MAX_RATE)
   \<and> (\<forall>r. ex = AcceptStep r \<longrightarrow>
      (\<exists>npv. calculate_npv cashflows r = Inr npv \<and> \<bar>npv\<bar> < TOLERANCE)
      \<and> MIN_RATE \<le> r \<and> r \<le> MAX_RATE)"
proof (induction k cashflows rate rule: newton_loop.induct)
  case (1 cashflows rate)
  then show ?case by simp
next
  case (2 k cashflows rate)
  from "2.prems" obtain npv where npv: "calculate_npv cashflows rate = Inr npv"
    by (cases "calculate_npv cashflows rate") simp_all
  show ?case
  proof (cases "\<bar>npv\<bar> < TOLERANCE \<and> rate > MIN_RATE \<and> rate < MAX_RATE")
    case True
    with "2.prems" npv have "ex = AcceptNpv rate" by simp
    with True npv show ?thesis by simp
  next
    case notacc: False
    from "2.prems" npv notacc obtain d where d: "calculate_npv_derivative cashflows rate = Inr d"
      by (cases "calculate_npv_derivative cashflows rate") simp_all
    show ?thesis
    proof (cases "\<bar>d\<bar> < 1 / 10000000000")
      case True
      with "2.prems" npv notacc d have "ex = Fallback" by simp
      then show ?thesis by simp
    next
      case slope: False
      define new_rate where "new_rate = max MIN_RATE (min MAX_RATE (rate - npv / d))"
      have bounds: "MIN_RATE \<le> new_rate" "new_rate \<le> MAX_RATE"
        using clamp_bounds [of "rate - npv / d"] by (simp_all add: new_rate_def)
      show ?thesis
      proof (cases "\<bar>new_rate - rate\<bar> < TOLERANCE")
        case True
        from "2.prems" npv notacc d slope True obtain npv' where
          npv': "calculate_npv cashflows new_rate = Inr npv'"
          by (cases "calculate_npv cashflows new_rate") (simp_all add: new_rate_def)
        show ?thesis
        proof (cases "\<bar>npv'\<bar> < TOLERANCE")
          case True
          with "2.prems" npv notacc d slope \<open>\<bar>new_rate - rate\<bar> < TOLERANCE\<close> npv'
          have "ex = AcceptStep new_rate" by (simp add: new_rate_def)
          with True npv' bounds show ?thesis by simp
        next
          case False
          with "2.prems" npv notacc d slope \<open>\<bar>new_rate - rate\<bar> < TOLERANCE\<close> npv'
          have "ex = Fallback" by (simp add: new_rate_def)
          then show ?thesis by simp
        qed
      next
        case False
        with "2.prems" npv notacc d slope
        have rec: "newton_loop k cashflows new_rate = Inr ex" by (simp add: new_rate_def)
        show ?thesis
          by (rule "2.IH" [OF npv notacc d slope new_rate_def False rec])
      qed
    qed
  qed
qed


text \<open>
  Claim C2. Whatever the Newton phase returns has a present value within the tolerance
  at the returned rate. The exit on the present value (\<open>AcceptNpv\<close>) returns a rate whose
  present value is below \<open>TOLERANCE\<close> in absolute value and that lies strictly between
  \<open>MIN_RATE\<close> and \<open>MAX_RATE\<close>; the exit on the step size (\<open>AcceptStep\<close>) returns the
  clamped new rate, and only when the present value evaluated again at that rate is
  below \<open>TOLERANCE\<close> in absolute value.
\<close>

theorem newton_exit_within_tolerance:
  "newton_loop k cashflows rate = Inr ex \<Longrightarrow>
   (\<forall>r. ex = AcceptNpv r \<longrightarrow>
      (\<exists>npv. calculate_npv cashflows r = Inr npv \<and> \<bar>npv\<bar> < TOLERANCE)
      \<and> MIN_RATE < r \<and> r < MAX_RATE)
   \<and> (\<forall>r. ex = AcceptStep r \<longrightarrow>
      (\<exists>npv. calculate_npv cashflows r = Inr npv \<and> \<bar>npv\<bar> < TOLERANCE)
      \<and> MIN_RATE \<le> r \<and> r \<le> MAX_RATE)"
  by (rule newton_loop_exit)

theorem newton_exit_within_tolerance_witness:
  "newton_loop MAX_NEWTON_ITERATIONS
     [\<lparr>days_from_start = 0, amount = - 1\<rparr>, \<lparr>days_from_start = 0, amount = 1\<rparr>] (1 / 10)
     = Inr (AcceptNpv (1 / 10))
   \<and> (\<exists>npv. calculate_npv
         [\<lparr>days_from_start = 0, amount = - 1\<rparr>, \<lparr>days_from_start = 0, amount = 1\<rparr>] (1 / 10)
         = Inr npv \<and> \<bar>npv\<bar> < TOLERANCE)
   \<and> MIN_RATE < 1 / 10 \<and> (1 / 10 :: real) < MAX_RATE"
proof -
  let ?cfs = "[\<lparr>days_from_start = 0, amount = - 1\<rparr>, \<lparr>days_from_start = 0, amount = 1\<rparr>]"
  have n: "calculate_npv ?cfs (1 / 10) = Inr 0"
    by (simp add: calculate_npv_def pow_def)
  have k: "MAX_NEWTON_ITERATIONS = Suc 49"
    by (simp add: MAX_NEWTON_ITERATIONS_def)
  have run: "newton_loop MAX_NEWTON_ITERATIONS ?cfs (1 / 10) = Inr (AcceptNpv (1 / 10))"
    unfolding k
    by (rule newton_loop_accept_npv [OF n]) (simp_all add: TOLERANCE_def MIN_RATE_def MAX_RATE_def)
  from newton_exit_within_tolerance [OF run] run show ?thesis by blast
qed

section \<open>All-positive cash flows\<close>

lemma MIN_RATE_gt: "- 1 < MIN_RATE" and MAX_RATE_gt: "- 1 < MAX_RATE"
  by (simp_all add: MIN_RATE_def MAX_RATE_def)

lemma clamp_gt: "- 1 < max MIN_RATE (min MAX_RATE x)"
  using clamp_bounds [of x] MIN_RATE_gt by linarith

lemma newton_loop_defined:
  "- 1 < rate \<Longrightarrow> \<exists>ex. newton_loop k cashflows rate = Inr ex"
proof (induction k arbitrary: rate)
  case 0
  then show ?case by simp
next
  case (Suc k)
  have "\<exists>ex. newton_loop k cashflows (max MIN_RATE (min MAX_RATE x)) = Inr ex" for x
    by (rule Suc.IH) (rule clamp_gt)
  then show ?case
    using Suc.prems clamp_gt
    by (simp add: calculate_npv_sum calculate_npv_derivative_sum Let_def)
qed

lemma npv_term_pos: "- 1 < r \<Longrightarrow> 0 < amount cf \<Longrightarrow> 0 < npv_term r cf"
  by (simp add: npv_term_def)

lemma member_le_sum_list_real:
  fixes xs :: "real list"
  shows "\<forall>x\<in>set xs. 0 \<le> x \<Longrightarrow> y \<in> set xs \<Longrightarrow> y \<le> sum_list xs"
proof (induction xs)
  case Nil
  then show ?case by simp
next
  case (Cons x xs)
  have nn: "0 \<le> sum_list xs" using Cons.prems(1) by (intro sum_list_nonneg) simp
  show ?case
  proof (cases "y = x")
    case True
    with nn show ?thesis by simp
  next
    case False
    with Cons have "y \<le> sum_list xs" by simp
    moreover have "0 \<le> x" using Cons.prems(1) by simp
    ultimately show ?thesis by simp
  qed
qed

lemma npv_all_positive:
  assumes "\<forall>cf\<in>set cashflows. 0 < amount cf" "cashflows \<noteq> []" "- 1 < r"
  shows "0 < sum_list (map (npv_term r) cashflows)"
proof -
  from assms(2) obtain cf cfs where c: "cashflows = cf # cfs" by (cases cashflows) auto
  have "0 \<le> sum_list (map (npv_term r) cfs)"
    using assms(1,3) c by (intro sum_list_nonneg) (auto intro: less_imp_le npv_term_pos)
  moreover have "0 < npv_term r cf" using assms(1,3) c by (simp add: npv_term_pos)
  ultimately show ?thesis by (simp add: c)
qed

lemma npv_offset0_bound:
  assumes pos: "\<forall>cf\<in>set cashflows. 0 < amount cf"
    and cf: "cf \<in> set cashflows" "days_from_start cf = 0" "TOLERANCE \<le> amount cf"
    and r: "- 1 < r"
  shows "TOLERANCE \<le> sum_list (map (npv_term r) cashflows)"
proof -
  have "npv_term r cf = amount cf" using cf(2) r by (simp add: npv_term_def)
  moreover have "npv_term r cf \<le> sum_list (map (npv_term r) cashflows)"
    using pos r cf(1) by (intro member_le_sum_list_real) (auto intro: less_imp_le npv_term_pos)
  ultimately show ?thesis using cf(3) by simp
qed

lemma newton_loop_no_accept:
  assumes big: "\<And>r. - 1 < r \<Longrightarrow> TOLERANCE \<le> \<bar>sum_list (map (npv_term r) cashflows)\<bar>"
  shows "- 1 < rate \<Longrightarrow> newton_loop k cashflows rate = Inr Fallback"
proof (induction k arbitrary: rate)
  case 0
  then show ?case by simp
next
  case (Suc k)
  have rec: "newton_loop k cashflows (max MIN_RATE (min MAX_RATE x)) = Inr Fallback" for x
    by (rule Suc.IH) (rule clamp_gt)
  have b: "\<not> \<bar>sum_list (map (npv_term rate) cashflows)\<bar> < TOLERANCE"
    using big [OF Suc.prems] by simp
  have b': "\<not> \<bar>sum_list (map (npv_term (max MIN_RATE (min MAX_RATE x))) cashflows)\<bar> < TOLERANCE" for x
    using big [OF clamp_gt [of x]] by simp
  show ?case
    using Suc.prems clamp_gt
    by (simp add: calculate_npv_sum calculate_npv_derivative_sum Let_def rec b b')
qed

lemma binary_search_same_sign:
  assumes "0 < sum_list (map (npv_term MIN_RATE) cashflows)"
    and "0 < sum_list (map (npv_term MAX_RATE) cashflows)"
  shows "binary_search cashflows = Inr NaN"
  using assms by (simp add: binary_search_def calculate_npv_sum MIN_RATE_gt MAX_RATE_gt)

text \<open>
  Claim C3, as amended. On a sequence of at least two cash flows whose amounts are all
  positive, with an initial guess above \<open>- 1\<close>, \<open>calculate_xirr\<close> returns the NaN
  sentinel, unless the Newton phase meets a rate at which the (positive) present value
  is below \<open>TOLERANCE\<close>, which it then returns. It returns NaN whenever some cash flow
  at offset \<open>0\<close> has an amount of at least \<open>TOLERANCE\<close>, as in the example
  \<open>[(0, 100), (365, 50)]\<close>.
\<close>

theorem xirr_all_positive:
  assumes len: "2 \<le> length cashflows"
    and pos: "\<forall>cf\<in>set cashflows. 0 < amount cf"
    and guess: "- 1 < initial_guess"
  shows "(calculate_xirr cashflows initial_guess = Inr NaN
          \<or> (\<exists>r v. calculate_xirr cashflows initial_guess = Inr (Rate r)
                \<and> calculate_npv cashflows r = Inr v \<and> 0 < v \<and> v < TOLERANCE))
       \<and> ((\<exists>cf\<in>set cashflows. days_from_start cf = 0 \<and> TOLERANCE \<le> amount cf)
            \<longrightarrow> calculate_xirr cashflows initial_guess = Inr NaN)"
proof -
  from len have ne: "cashflows \<noteq> []" and nlt: "\<not> length cashflows < 2" by auto
  have npos: "0 < sum_list (map (npv_term r) cashflows)" if "- 1 < r" for r
    using npv_all_positive [OF pos ne that] .
  have bs: "binary_search cashflows = Inr NaN"
    by (rule binary_search_same_sign) (simp_all add: npos MIN_RATE_gt MAX_RATE_gt)
  obtain ex where ex: "newton_loop MAX_NEWTON_ITERATIONS cashflows initial_guess = Inr ex"
    using newton_loop_defined [OF guess] by blast
  note sound = newton_loop_exit [OF ex]
  have first: "calculate_xirr cashflows initial_guess = Inr NaN
          \<or> (\<exists>r v. calculate_xirr cashflows initial_guess = Inr (Rate r)
                \<and> calculate_npv cashflows r = Inr v \<and> 0 < v \<and> v < TOLERANCE)"
  proof (cases ex)
    case (AcceptNpv r)
    with sound obtain v where v: "calculate_npv cashflows r = Inr v" "\<bar>v\<bar> < TOLERANCE"
      and r: "MIN_RATE < r" by blast
    from r MIN_RATE_gt have r1: "- 1 < r" by linarith
    with v(1) npos [OF r1] have "0 < v" by (simp add: calculate_npv_sum)
    moreover have "calculate_xirr cashflows initial_guess = Inr (Rate r)"
      using nlt ex AcceptNpv by (simp add: calculate_xirr_def)
    ultimately show ?thesis using v by auto
  next
    case (AcceptStep r)
    with sound obtain v where v: "calculate_npv cashflows r = Inr v" "\<bar>v\<bar> < TOLERANCE"
      and r: "MIN_RATE \<le> r" by blast
    from r MIN_RATE_gt have r1: "- 1 < r" by linarith
    with v(1) npos [OF r1] have "0 < v" by (simp add: calculate_npv_sum)
    moreover have "calculate_xirr cashflows initial_guess = Inr (Rate r)"
      using nlt ex AcceptStep by (simp add: calculate_xirr_def)
    ultimately show ?thesis using v by auto
  next
    case Fallback
    with nlt ex bs show ?thesis by (simp add: calculate_xirr_def)
  qed
  have second: "calculate_xirr cashflows initial_guess = Inr NaN"
    if "\<exists>cf\<in>set cashflows. days_from_start cf = 0 \<and> TOLERANCE \<le> amount cf"
  proof -
    from that obtain cf where cf: "cf \<in> set cashflows" "days_from_start cf = 0"
      "TOLERANCE \<le> amount cf" by blast
    have "TOLERANCE \<le> \<bar>sum_list (map (npv_term r) cashflows)\<bar>" if "- 1 < r" for r
      using npv_offset0_bound [OF pos cf that] by simp
    then have "newton_loop MAX_NEWTON_ITERATIONS cashflows initial_guess = Inr Fallback"
      using guess by (intro newton_loop_no_accept)
    with nlt bs show ?thesis by (simp add: calculate_xirr_def)
  qed
  from first second show ?thesis by blast
qed

lemma positive_flows:
  "2 \<le> length [\<lparr>days_from_start = 0, amount = 100\<rparr>, \<lparr>days_from_start = 365, amount = 50\<rparr>]"
  "\<forall>cf\<in>set [\<lparr>days_from_start = 0, amount = 100\<rparr>, \<lparr>days_from_start = 365, amount = 50\<rparr>].
      0 < amount cf"
  "\<exists>cf\<in>set [\<lparr>days_from_start = 0, amount = 100\<rparr>, \<lparr>days_from_start = 365, amount = 50\<rparr>].
      days_from_start cf = 0 \<and> TOLERANCE \<le> amount cf"
  by (simp_all add: TOLERANCE_def)

theorem xirr_all_positive_witness:
  "2 \<le> length [\<lparr>days_from_start = 0, amount = 100\<rparr>, \<lparr>days_from_start = 365, amount = 50\<rparr>]
   \<and> list_all (\<lambda>cf. 0 < amount cf)
        [\<lparr>days_from_start = 0, amount = 100\<rparr>, \<lparr>days_from_start = 365, amount = 50\<rparr>]
   \<and> - 1 < (1 / 10 :: real)
   \<and> (\<exists>cf\<in>set [\<lparr>days_from_start = 0, amount = 100\<rparr>, \<lparr>days_from_start = 365, amount = 50\<rparr>].
      days_from_start cf = 0 \<and> TOLERANCE \<le> amount cf)
   \<and> calculate_xirr
        [\<lparr>days_from_start = 0, amount = 100\<rparr>, \<lparr>days_from_start = 365, amount = 50\<rparr>] (1 / 10)
      = Inr NaN"
proof -
  have g: "- 1 < (1 / 10 :: real)" by simp
  from xirr_all_positive [OF positive_flows(1,2) g] positive_flows g
  show ?thesis unfolding list_all_iff by blast
qed

text \<open>
  The claim as stated fails for small amounts: two cash flows of \<open>1e-8\<close> at offset \<open>0\<close>
  have the present value \<open>2e-8\<close> at every rate, which is below \<open>TOLERANCE\<close>, so the
  Newton phase accepts the initial guess.
\<close>

theorem xirr_all_positive_counterexample:
  "0 < amount \<lparr>days_from_start = 0, amount = 1 / 100000000\<rparr>
   \<and> calculate_xirr
       [\<lparr>days_from_start = 0, amount = 1 / 100000000\<rparr>,
        \<lparr>days_from_start = 0, amount = 1 / 100000000\<rparr>] (1 / 10)
     = Inr (Rate (1 / 10))"
proof -
  let ?cfs = "[\<lparr>days_from_start = 0, amount = 1 / 100000000\<rparr>,
        \<lparr>days_from_start = 0, amount = 1 / 100000000\<rparr>]"
  have n: "calculate_npv ?cfs (1 / 10) = Inr (2 / 100000000)"
    by (simp add: calculate_npv_def pow_def)
  have k: "MAX_NEWTON_ITERATIONS = Suc 49"
    by (simp add: MAX_NEWTON_ITERATIONS_def)
  have "newton_loop MAX_NEWTON_ITERATIONS ?cfs (1 / 10) = Inr (AcceptNpv (1 / 10))"
    unfolding k
    by (rule newton_loop_accept_npv [OF n]) (simp_all add: TOLERANCE_def MIN_RATE_def MAX_RATE_def)
  then show ?thesis by (simp add: calculate_xirr_def)
qed

section \<open>The bisection\<close>

lemma binary_loop_step:
  assumes "calculate_npv cashflows ((low + high) / 2) = Inr v"
  shows "binary_loop (Suc k) cashflows low high npv_low =
     (if \<bar>v\<bar> < TOLERANCE then Inr (Rate ((low + high) / 2))
      else if v * npv_low < 0 then
        (if (low + high) / 2 - low < TOLERANCE then Inr (Rate ((low + (low + high) / 2) / 2))
         else binary_loop k cashflows low ((low + high) / 2) npv_low)
      else
        (if high - (low + high) / 2 < TOLERANCE then Inr (Rate (((low + high) / 2 + high) / 2))
         else binary_loop k cashflows ((low + high) / 2) high v))"
  using assms by (simp add: Let_def)

lemma binary_loop_bracket:
  assumes below: "\<And>r. - 1 < r \<Longrightarrow> r \<le> rho \<Longrightarrow> 0 \<le> sum_list (map (npv_term r) cashflows)"
    and above: "\<And>r. rho \<le> r \<Longrightarrow> sum_list (map (npv_term r) cashflows) \<le> 0"
  shows "binary_loop k cashflows low high npv_low = Inr (Rate r) \<Longrightarrow>
         - 1 < low \<Longrightarrow> low < rho \<Longrightarrow> rho < high \<Longrightarrow> 0 < npv_low \<Longrightarrow>
         - 1 < r \<and> (\<bar>sum_list (map (npv_term r) cashflows)\<bar> < TOLERANCE \<or> \<bar>r - rho\<bar> < TOLERANCE)"
proof (induction k arbitrary: low high npv_low)
  case 0
  then show ?case by simp
next
  case (Suc k)
  define mid where "mid = (low + high) / 2"
  define v where "v = sum_list (map (npv_term mid) cashflows)"
  have mid1: "- 1 < mid" using Suc.prems(2,3,4) by (simp add: mid_def)
  have npv: "calculate_npv cashflows ((low + high) / 2) = Inr v"
    using mid1 by (simp add: calculate_npv_sum v_def mid_def)
  note step = binary_loop_step [OF npv, of k npv_low, folded mid_def]
  show ?case
  proof (cases "\<bar>v\<bar> < TOLERANCE")
    case True
    with Suc.prems(1) step have "r = mid" by simp
    with True mid1 show ?thesis by (simp add: v_def)
  next
    case far: False
    have tol: "0 < TOLERANCE" by (simp add: TOLERANCE_def)
    show ?thesis
    proof (cases "v * npv_low < 0")
      case True
      with Suc.prems(5) have "v < 0" by (simp add: mult_less_0_iff)
      with below [OF mid1] have mr: "rho < mid" unfolding v_def by fastforce
      show ?thesis
      proof (cases "mid - low < TOLERANCE")
        case True
        with Suc.prems(1) step far \<open>v * npv_low < 0\<close> have "r = (low + mid) / 2" by simp
        with True mr Suc.prems(2,3) show ?thesis by (simp add: abs_if field_simps)
      next
        case False
        with Suc.prems(1) step far \<open>v * npv_low < 0\<close>
        have "binary_loop k cashflows low mid npv_low = Inr (Rate r)" by simp
        then show ?thesis using Suc.prems(2,3) mr Suc.prems(5) by (rule Suc.IH)
      qed
    next
      case same: False
      with Suc.prems(5) have "0 \<le> v" by (simp add: mult_less_0_iff not_less)
      with far tol have vpos: "0 < v" by (simp add: abs_if split: if_splits)
      with above [of mid] have mr: "mid < rho" unfolding v_def by fastforce
      show ?thesis
      proof (cases "high - mid < TOLERANCE")
        case True
        with Suc.prems(1) step far same have "r = (mid + high) / 2" by simp
        with True mr mid1 Suc.prems(4) show ?thesis by (simp add: abs_if field_simps)
      next
        case False
        with Suc.prems(1) step far same
        have "binary_loop k cashflows mid high v = Inr (Rate r)" by simp
        then show ?thesis using mid1 mr Suc.prems(4) vpos by (rule Suc.IH)
      qed
    qed
  qed
qed

lemma binary_loop_returns_rate:
  "- 1 < low \<Longrightarrow> low < high \<Longrightarrow> high - low < TOLERANCE * 2 ^ k \<Longrightarrow> 0 < k \<Longrightarrow>
   \<exists>r. binary_loop k cashflows low high npv_low = Inr (Rate r)"
proof (induction k arbitrary: low high npv_low)
  case 0
  then show ?case by simp
next
  case (Suc k)
  define mid where "mid = (low + high) / 2"
  define v where "v = sum_list (map (npv_term mid) cashflows)"
  have mid1: "- 1 < mid" "low < mid" "mid < high" using Suc.prems(1,2) by (simp_all add: mid_def)
  have npv: "calculate_npv cashflows ((low + high) / 2) = Inr v"
    using mid1 by (simp add: calculate_npv_sum v_def mid_def)
  note step = binary_loop_step [OF npv, of k npv_low, folded mid_def]
  have w1: "mid - low < TOLERANCE * 2 ^ k" and w2: "high - mid < TOLERANCE * 2 ^ k"
    using Suc.prems(3) by (simp_all add: mid_def field_simps)
  have left: "mid - low < TOLERANCE \<or> (\<exists>r. binary_loop k cashflows low mid npv_low = Inr (Rate r))"
  proof (cases "k = 0")
    case True
    with w1 show ?thesis by simp
  next
    case False
    then have "\<exists>r. binary_loop k cashflows low mid npv_low = Inr (Rate r)"
      using Suc.prems(1) mid1(2) w1 by (intro Suc.IH) simp_all
    then show ?thesis by simp
  qed
  have right: "high - mid < TOLERANCE \<or> (\<exists>r. binary_loop k cashflows mid high v = Inr (Rate r))"
  proof (cases "k = 0")
    case True
    with w2 show ?thesis by simp
  next
    case False
    then have "\<exists>r. binary_loop k cashflows mid high v = Inr (Rate r)"
      using mid1 w2 by (intro Suc.IH) simp_all
    then show ?thesis by simp
  qed
  show ?case
  proof (cases "\<bar>v\<bar> < TOLERANCE")
    case True
    then show ?thesis by (simp only: step if_True) blast
  next
    case far: False
    show ?thesis
    proof (cases "v * npv_low < 0")
      case True
      show ?thesis
      proof (cases "mid - low < TOLERANCE")
        case narrow: True
        with far True show ?thesis by (simp only: step if_True if_False) blast
      next
        case False
        with far True left show ?thesis by (simp only: step if_True if_False) blast
      qed
    next
      case same: False
      show ?thesis
      proof (cases "high - mid < TOLERANCE")
        case True
        with far same show ?thesis by (simp only: step if_True if_False) blast
      next
        case False
        with far same right show ?thesis by (simp only: step if_True if_False) blast
      qed
    qed
  qed
qed

section \<open>The end-to-end example\<close>

lemma one_minus_powr_le:
  fixes x y :: real
  assumes "0 \<le> x" "x < 1" "0 \<le> y"
  shows "(1 - x) powr y \<le> 1 / (1 + y * x)"
proof -
  have pos: "0 < 1 - x" using assms by simp
  have "ln (1 - x) \<le> - x" using ln_le_minus_one [OF pos] by simp
  then have "y * ln (1 - x) \<le> - (y * x)"
    using assms(3) mult_left_mono [of "ln (1 - x)" "- x" y] by simp
  then have "exp (y * ln (1 - x)) \<le> exp (- (y * x))" by simp
  also have "\<dots> = 1 / exp (y * x)" by (simp add: exp_minus inverse_eq_divide)
  also have "\<dots> \<le> 1 / (1 + y * x)"
  proof (rule divide_left_mono)
    show "1 + y * x \<le> exp (y * x)" by (rule exp_ge_add_one_self)
    show "0 \<le> (1::real)" by simp
    have "0 < 1 + y * x" using assms by (simp add: add_pos_nonneg)
    then show "0 < exp (y * x) * (1 + y * x)" by simp
  qed
  finally show ?thesis using pos by (simp add: powr_def)
qed

lemma powr_shrink:
  fixes a b y :: real
  assumes "0 < a" "a \<le> b" "0 \<le> y"
  shows "a powr y \<le> b powr y / (1 + y * ((b - a) / b))"
proof -
  have b: "0 < b" using assms by simp
  define x where "x = (b - a) / b"
  have x: "0 \<le> x" "x < 1" using assms b by (simp_all add: x_def)
  have "a = b * (1 - x)" using b by (simp add: x_def field_simps)
  then have "a powr y = b powr y * (1 - x) powr y" by (simp add: powr_mult)
  also have "\<dots> \<le> b powr y * (1 / (1 + y * x))"
    by (intro mult_left_mono one_minus_powr_le x assms) simp
  finally show ?thesis by (simp add: x_def)
qed

lemma example_npv:
  "- 1 < r \<Longrightarrow>
   sum_list (map (npv_term r) example_flows) = 1100 / (1 + r) powr (1460 / 1461) - 1000"
  by (simp add: example_flows_def npv_term_def)

lemma example_root_powr: "(1 + example_root) powr (1460 / 1461) = 11 / 10"
  by (simp add: example_root_def powr_powr)

lemma example_root_split:
  "1 + example_root = (11 / 10) * (11 / 10) powr (1 / 1460)"
proof -
  have "(1461 / 1460 :: real) = 1 + 1 / 1460" by simp
  then have "(11 / 10 :: real) powr (1461 / 1460) = (11 / 10) powr 1 * (11 / 10) powr (1 / 1460)"
    by (simp only: powr_add)
  then show ?thesis by (simp add: example_root_def)
qed

lemma example_root_lower: "1100068 / 1000000 \<le> 1 + example_root"
proof -
  have "(1::real) powr (1 / 1460) \<le> (11 / 10) powr (1 / 1460) / (1 + (1 / 1460) * ((11 / 10 - 1) / (11 / 10)))"
    by (rule powr_shrink) simp_all
  then have "1 + 1 / 16060 \<le> (11 / 10 :: real) powr (1 / 1460)"
    by (simp add: field_simps)
  then show ?thesis by (simp add: example_root_split)
qed

lemma example_root_upper: "1 + example_root \<le> 1100076 / 1000000"
proof -
  define c :: real where "c = 1 + 1 / 14600"
  have c: "0 < c" by (simp add: c_def)
  have "(11 / 10 :: real) \<le> 1 + real 1460 * (1 / 14600)" by simp
  also have "\<dots> \<le> c ^ 1460"
    unfolding c_def by (rule Bernoulli_inequality) simp
  finally have "(11 / 10 :: real) powr (1 / 1460) \<le> (c ^ 1460) powr (1 / 1460)"
    by (intro powr_mono2) simp_all
  also have "c ^ 1460 = c powr 1460" using c by simp
  also have "(c powr 1460) powr (1 / 1460) = c powr (1460 * (1 / 1460))" by (rule powr_powr)
  also have "\<dots> = c" using c by simp
  finally show ?thesis by (simp add: example_root_split c_def)
qed

lemma example_root_gt: "- 1 < example_root"
  using example_root_lower by simp

lemma example_npv_below:
  assumes "- 1 < r" "r \<le> example_root"
  shows "0 \<le> sum_list (map (npv_term r) example_flows)"
proof -
  have "(1 + r) powr (1460 / 1461) \<le> (1 + example_root) powr (1460 / 1461)"
    using assms by (intro powr_mono2) simp_all
  then have le: "(1 + r) powr (1460 / 1461) \<le> 11 / 10" by (simp only: example_root_powr)
  have pos: "0 < (1 + r) powr (1460 / 1461)" using assms(1) by simp
  have "1100 / (11 / 10) \<le> 1100 / (1 + r) powr (1460 / 1461)"
    using le pos by (intro divide_left_mono) simp_all
  then show ?thesis using assms(1) by (simp add: example_npv)
qed

lemma example_npv_above:
  assumes "example_root \<le> r"
  shows "sum_list (map (npv_term r) example_flows) \<le> 0"
proof -
  have r: "- 1 < r" using assms example_root_gt by linarith
  have "(1 + example_root) powr (1460 / 1461) \<le> (1 + r) powr (1460 / 1461)"
    using assms example_root_gt by (intro powr_mono2) simp_all
  then have le: "11 / 10 \<le> (1 + r) powr (1460 / 1461)" by (simp only: example_root_powr)
  have "1100 / (1 + r) powr (1460 / 1461) \<le> 1100 / (11 / 10)"
    using le r by (intro divide_left_mono) simp_all
  then show ?thesis using r by (simp add: example_npv)
qed

lemma example_npv_far_below:
  assumes "- 1 < r" "r \<le> example_root - 1 / 1000000"
  shows "TOLERANCE \<le> sum_list (map (npv_term r) example_flows)"
proof -
  define U where "U = 1 + example_root"
  define a where "a = U - 1 / 1000000"
  have U: "1100068 / 1000000 \<le> U" "U \<le> 1100076 / 1000000"
    using example_root_lower example_root_upper by (simp_all add: U_def)
  have a: "0 < a" "a \<le> U" using U by (simp_all add: a_def)
  have "9 / 10000000 \<le> (1460 / 1461) * ((1 / 1000000) / (1100076 / 1000000 :: real))" by simp
  also have "\<dots> \<le> (1460 / 1461) * ((1 / 1000000) / U)"
    using U by (intro mult_left_mono divide_left_mono) simp_all
  also have "\<dots> = (1460 / 1461) * ((U - a) / U)" by (simp add: a_def)
  finally have d: "1 + 9 / 10000000 \<le> 1 + (1460 / 1461) * ((U - a) / U)" by simp
  have "(1 + r) powr (1460 / 1461) \<le> a powr (1460 / 1461)"
    using assms by (intro powr_mono2) (simp_all add: a_def U_def)
  also have "\<dots> \<le> U powr (1460 / 1461) / (1 + (1460 / 1461) * ((U - a) / U))"
    using a by (intro powr_shrink) simp_all
  also have "\<dots> = (11 / 10) / (1 + (1460 / 1461) * ((U - a) / U))"
    by (simp only: U_def example_root_powr)
  also have "\<dots> \<le> (11 / 10) / (1 + 9 / 10000000)"
    by (rule frac_le [OF _ _ _ d]) simp_all
  finally have le: "(1 + r) powr (1460 / 1461) \<le> (11 / 10) / (1 + 9 / 10000000)" .
  have pos: "0 < (1 + r) powr (1460 / 1461)" using assms(1) by simp
  have "1100 / ((11 / 10) / (1 + 9 / 10000000)) \<le> 1100 / (1 + r) powr (1460 / 1461)"
    using le pos by (intro divide_left_mono) simp_all
  then show ?thesis using assms(1) by (simp add: example_npv TOLERANCE_def)
qed

lemma example_npv_far_above:
  assumes "example_root + 1 / 1000000 \<le> r"
  shows "sum_list (map (npv_term r) example_flows) \<le> - TOLERANCE"
proof -
  define U where "U = 1 + example_root"
  define b where "b = U + 1 / 1000000"
  have U: "1100068 / 1000000 \<le> U" "U \<le> 1100076 / 1000000"
    using example_root_lower example_root_upper by (simp_all add: U_def)
  have r: "- 1 < r" using assms U by (simp add: U_def)
  have b: "0 < b" "U \<le> b" "b \<le> 1100077 / 1000000" using U by (simp_all add: b_def)
  have "9 / 10000000 \<le> (1460 / 1461) * ((1 / 1000000) / (1100077 / 1000000 :: real))" by simp
  also have "\<dots> \<le> (1460 / 1461) * ((1 / 1000000) / b)"
    using b by (intro mult_left_mono divide_left_mono) simp_all
  also have "\<dots> = (1460 / 1461) * ((b - U) / b)" by (simp add: b_def)
  finally have d: "1 + 9 / 10000000 \<le> 1 + (1460 / 1461) * ((b - U) / b)" by simp
  have "U powr (1460 / 1461) \<le> b powr (1460 / 1461) / (1 + (1460 / 1461) * ((b - U) / b))"
    using U b by (intro powr_shrink) simp_all
  then have "(11 / 10) \<le> b powr (1460 / 1461) / (1 + (1460 / 1461) * ((b - U) / b))"
    by (simp only: U_def example_root_powr)
  moreover have dpos: "0 < 1 + (1460 / 1461) * ((b - U) / b)" using d by linarith
  ultimately have "(11 / 10) * (1 + (1460 / 1461) * ((b - U) / b)) \<le> b powr (1460 / 1461)"
    by (simp add: pos_le_divide_eq)
  moreover have "(11 / 10) * (1 + 9 / 10000000) \<le> (11 / 10) * (1 + (1460 / 1461) * ((b - U) / b))"
    using d by (intro mult_left_mono) simp_all
  moreover have "b powr (1460 / 1461) \<le> (1 + r) powr (1460 / 1461)"
    using assms b by (intro powr_mono2) (simp_all add: b_def U_def)
  ultimately have le: "(11 / 10) * (1 + 9 / 10000000) \<le> (1 + r) powr (1460 / 1461)" by linarith
  have "1100 / (1 + r) powr (1460 / 1461) \<le> 1100 / ((11 / 10) * (1 + 9 / 10000000))"
    by (rule frac_le [OF _ _ _ le]) simp_all
  then show ?thesis using r by (simp add: example_npv TOLERANCE_def)
qed

lemma example_npv_near:
  assumes "- 1 < r" "\<bar>sum_list (map (npv_term r) example_flows)\<bar> < TOLERANCE"
  shows "\<bar>r - example_root\<bar> \<le> 1 / 1000000"
proof -
  have "\<not> r \<le> example_root - 1 / 1000000"
    using example_npv_far_below [OF assms(1)] assms(2) by fastforce
  moreover have "\<not> example_root + 1 / 1000000 \<le> r"
    using example_npv_far_above [of r] assms(2) by fastforce
  ultimately show ?thesis by linarith
qed

lemma example_binary_search:
  "\<exists>r. binary_search example_flows = Inr (Rate r) \<and> \<bar>r - example_root\<bar> \<le> 1 / 1000000"
proof -
  have lo: "TOLERANCE \<le> sum_list (map (npv_term MIN_RATE) example_flows)"
    using example_root_lower by (intro example_npv_far_below) (simp_all add: MIN_RATE_def)
  have hi: "sum_list (map (npv_term MAX_RATE) example_flows) \<le> - TOLERANCE"
    using example_root_upper by (intro example_npv_far_above) (simp add: MAX_RATE_def)
  have tol: "0 < TOLERANCE" by (simp add: TOLERANCE_def)
  have "sum_list (map (npv_term MIN_RATE) example_flows)
        * sum_list (map (npv_term MAX_RATE) example_flows) < 0"
    using lo hi tol by (intro mult_pos_neg) linarith+
  then have bs: "binary_search example_flows =
      binary_loop MAX_BINARY_ITERATIONS example_flows MIN_RATE MAX_RATE
        (sum_list (map (npv_term MIN_RATE) example_flows))"
    by (simp add: binary_search_def calculate_npv_sum MIN_RATE_gt MAX_RATE_gt)
  have "\<exists>r. binary_loop MAX_BINARY_ITERATIONS example_flows MIN_RATE MAX_RATE
        (sum_list (map (npv_term MIN_RATE) example_flows)) = Inr (Rate r)"
    by (rule binary_loop_returns_rate)
      (simp_all add: MIN_RATE_def MAX_RATE_def TOLERANCE_def MAX_BINARY_ITERATIONS_def)
  then obtain r where r: "binary_loop MAX_BINARY_ITERATIONS example_flows MIN_RATE MAX_RATE
        (sum_list (map (npv_term MIN_RATE) example_flows)) = Inr (Rate r)" by blast
  have "- 1 < r \<and> (\<bar>sum_list (map (npv_term r) example_flows)\<bar> < TOLERANCE
          \<or> \<bar>r - example_root\<bar> < TOLERANCE)"
  proof (rule binary_loop_bracket [OF _ _ r])
    show "- 1 < MIN_RATE" by (rule MIN_RATE_gt)
    show "MIN_RATE < example_root" using example_root_lower by (simp add: MIN_RATE_def)
    show "example_root < MAX_RATE" using example_root_upper by (simp add: MAX_RATE_def)
    show "0 < sum_list (map (npv_term MIN_RATE) example_flows)" using lo tol by linarith
  qed (simp_all add: example_npv_below example_npv_above)
  then have "\<bar>r - example_root\<bar> \<le> 1 / 1000000"
    using example_npv_near [of r] by (auto simp: TOLERANCE_def)
  with bs r show ?thesis by simp
qed

lemma example_xirr:
  "\<exists>r. calculate_xirr example_flows (1 / 10) = Inr (Rate r) \<and> \<bar>r - example_root\<bar> \<le> 1 / 1000000"
proof -
  have nlt: "\<not> length example_flows < 2" by (simp add: example_flows_def)
  obtain ex where ex: "newton_loop MAX_NEWTON_ITERATIONS example_flows (1 / 10) = Inr ex"
    using newton_loop_defined [of "1 / 10"] by auto
  note sound = newton_loop_exit [OF ex]
  show ?thesis
  proof (cases ex)
    case (AcceptNpv r)
    with sound obtain v where v: "calculate_npv example_flows r = Inr v" "\<bar>v\<bar> < TOLERANCE"
      and r: "MIN_RATE < r" by blast
    from r MIN_RATE_gt have r1: "- 1 < r" by linarith
    with v have "\<bar>sum_list (map (npv_term r) example_flows)\<bar> < TOLERANCE"
      by (simp add: calculate_npv_sum)
    then have "\<bar>r - example_root\<bar> \<le> 1 / 1000000" by (rule example_npv_near [OF r1])
    moreover have "calculate_xirr example_flows (1 / 10) = Inr (Rate r)"
      using nlt ex AcceptNpv by (simp add: calculate_xirr_def)
    ultimately show ?thesis by blast
  next
    case (AcceptStep r)
    with sound obtain v where v: "calculate_npv example_flows r = Inr v" "\<bar>v\<bar> < TOLERANCE"
      and r: "MIN_RATE \<le> r" by blast
    from r MIN_RATE_gt have r1: "- 1 < r" by linarith
    with v have "\<bar>sum_list (map (npv_term r) example_flows)\<bar> < TOLERANCE"
      by (simp add: calculate_npv_sum)
    then have "\<bar>r - example_root\<bar> \<le> 1 / 1000000" by (rule example_npv_near [OF r1])
    moreover have "calculate_xirr example_flows (1 / 10) = Inr (Rate r)"
      using nlt ex AcceptStep by (simp add: calculate_xirr_def)
    ultimately show ?thesis by blast
  next
    case Fallback
    with nlt ex have "calculate_xirr example_flows (1 / 10) = binary_search example_flows"
      by (simp add: calculate_xirr_def)
    with example_binary_search show ?thesis by simp
  qed
qed

text \<open>
  Claim C1, as amended. On the cash flows \<open>[(0, - 1000), (365, 1100)]\<close> with the initial
  guess \<open>0.1\<close>, \<open>calculate_xirr\<close> returns a rate within \<open>1e-6\<close> of the rate
  \<open>1.1 powr (365.25 / 365) - 1\<close> at which the present value on the 365.25-day year is
  zero; that rate lies between \<open>0.100068\<close> and \<open>0.100076\<close>.
\<close>

theorem xirr_example_root:
  "returns_within (1 / 1000000) ((11 / 10) powr (1461 / 1460) - 1)
     (calculate_xirr
        [\<lparr>days_from_start = 0, amount = - 1000\<rparr>, \<lparr>days_from_start = 365, amount = 1100\<rparr>]
        (1 / 10))
   \<and> 100068 / 1000000 \<le> (11 / 10 :: real) powr (1461 / 1460) - 1
   \<and> (11 / 10 :: real) powr (1461 / 1460) - 1 \<le> 100076 / 1000000"
proof -
  from example_xirr obtain r where
    "calculate_xirr example_flows (1 / 10) = Inr (Rate r)" "\<bar>r - example_root\<bar> \<le> 1 / 1000000"
    by blast
  then have "returns_within (1 / 1000000) example_root (calculate_xirr example_flows (1 / 10))"
    by simp
  moreover have "100068 / 1000000 \<le> example_root" "example_root \<le> 100076 / 1000000"
    using example_root_lower example_root_upper by simp_all
  ultimately show ?thesis
    by (simp only: example_flows_def example_root_def) 
qed

text \<open>
  The claim as stated fails: the returned rate is not within \<open>1e-6\<close> of \<open>0.10\<close>.
\<close>

theorem xirr_example_counterexample:
  "\<not> returns_within (1 / 1000000) (1 / 10)
     (calculate_xirr
        [\<lparr>days_from_start = 0, amount = - 1000\<rparr>, \<lparr>days_from_start = 365, amount = 1100\<rparr>]
        (1 / 10))"
proof -
  from example_xirr obtain r where
    r: "calculate_xirr example_flows (1 / 10) = Inr (Rate r)" "\<bar>r - example_root\<bar> \<le> 1 / 1000000"
    by blast
  have "1 / 1000000 < \<bar>r - 1 / 10\<bar>"
    using r(2) example_root_lower by linarith
  with r(1) have "\<not> returns_within (1 / 1000000) (1 / 10) (calculate_xirr example_flows (1 / 10))"
    by simp
  then show ?thesis unfolding example_flows_def .
qed

section \<open>The oscillator\<close>

lemma set_update_nonneg:
  fixes xs :: "real list"
  shows "\<forall>v\<in>set xs. 0 \<le> v \<Longrightarrow> 0 \<le> x \<Longrightarrow> \<forall>v\<in>set (xs[i := x]). 0 \<le> v"
  using set_update_subset_insert [of xs i x] by auto

lemma changes_loop_props:
  "changes_loop ptr i gains losses = (g, l) \<Longrightarrow>
   length gains = length ptr \<Longrightarrow> length losses = length ptr \<Longrightarrow>
   \<forall>v\<in>set gains. 0 \<le> v \<Longrightarrow> \<forall>v\<in>set losses. 0 \<le> v \<Longrightarrow>
   length g = length ptr \<and> length l = length ptr
   \<and> (\<forall>v\<in>set g. 0 \<le> v) \<and> (\<forall>v\<in>set l. 0 \<le> v)"
proof (induction ptr i gains losses rule: changes_loop.induct)
  case (1 ptr i gains losses)
  show ?case
  proof (cases "i < length ptr")
    case False
    with "1.prems" show ?thesis by (simp add: changes_loop.simps)
  next
    case True
    define change where "change = ptr ! i - ptr ! (i - 1)"
    show ?thesis
    proof (cases "change > 0")
      case up: True
      with True "1.prems"(1)
      have run: "changes_loop ptr (i + 1) (gains[i := change]) losses = (g, l)"
        by (simp add: changes_loop.simps [of ptr i] change_def Let_def)
      have nn: "\<forall>v\<in>set (gains[i := change]). 0 \<le> v"
        using "1.prems"(4) up by (intro set_update_nonneg) simp_all
      show ?thesis
        using "1.IH"(1) [OF True change_def up run _ "1.prems"(3) nn "1.prems"(5)] "1.prems"(2)
        by simp
    next
      case down: False
      with True "1.prems"(1)
      have run: "changes_loop ptr (i + 1) gains (losses[i := - change]) = (g, l)"
        by (simp add: changes_loop.simps [of ptr i] change_def Let_def)
      have nn: "\<forall>v\<in>set (losses[i := - change]). 0 \<le> v"
        using "1.prems"(5) down by (intro set_update_nonneg) simp_all
      show ?thesis
        using "1.IH"(2) [OF True change_def down run "1.prems"(2) _ "1.prems"(4) nn] "1.prems"(3)
        by simp
    qed
  qed
qed


lemma seed_loop_out_of_bounds:
  "int (length gains) \<le> period \<Longrightarrow> i \<le> period \<Longrightarrow>
   seed_loop gains losses period i avg_gain avg_loss = Inl OutOfBounds"
proof (induction gains losses period i avg_gain avg_loss rule: seed_loop.induct)
  case (1 gains losses period i avg_gain avg_loss)
  show ?case
  proof (cases "0 \<le> i \<and> nat i < length gains \<and> nat i < length losses")
    case False
    with "1.prems"(2) show ?thesis
      by (subst seed_loop.simps) (simp only: if_True if_False)
  next
    case True
    with "1.prems" have next_le: "i + 1 \<le> period" by auto
    have "seed_loop gains losses period (i + 1)
             (avg_gain + gains ! nat i) (avg_loss + losses ! nat i) = Inl OutOfBounds"
      by (rule "1.IH" [OF "1.prems"(2) True "1.prems"(1) next_le])
    with True "1.prems"(2) show ?thesis
      by (simp add: seed_loop.simps [of gains losses period i])
  qed
qed


lemma rsi_value_zero_loss: "rsi_value avg_gain 0 = Inr 100"
  by (simp add: rsi_value_def)






text \<open>
  Claim C10 does not hold of the code. The seeding loop reads \<^verbatim>\<open>gains[i]\<close> and
  \<^verbatim>\<open>losses[i]\<close> for \<open>i\<close> from \<open>1\<close> to \<open>period\<close> with no test against \<^verbatim>\<open>n\<close>: on every
  series of at most \<open>period\<close> prices, the empty one included, \<open>calculate_rsi\<close> reads
  past the end of both vectors.
\<close>

theorem rsi_short_series_out_of_bounds:
  "1 \<le> period \<Longrightarrow> int (length prices) \<le> period \<Longrightarrow>
   calculate_rsi prices period = Inl OutOfBounds"
proof -
  assume period: "1 \<le> period" "int (length prices) \<le> period"
  define n where "n = length prices"
  obtain g l where gl: "changes_loop prices 1 (replicate n 0) (replicate n 0) = (g, l)"
    by (cases "changes_loop prices 1 (replicate n 0) (replicate n 0)") blast
  have "length g = n" using changes_loop_props [OF gl] by (simp add: n_def)
  then have "seed_loop g l period 1 0 0 = Inl OutOfBounds"
    using period by (intro seed_loop_out_of_bounds) (simp_all add: n_def)
  with gl show ?thesis by (simp add: calculate_rsi_def n_def [symmetric])
qed

theorem rsi_short_series_out_of_bounds_witness:
  "(1::int) \<le> 14 \<and> int (length ([] :: real list)) \<le> 14
   \<and> calculate_rsi [] 14 = Inl OutOfBounds"
  using rsi_short_series_out_of_bounds [of 14 "[]"] by simp

section \<open>The volatility bands\<close>

lemma length_window: "w \<le> i + 1 \<Longrightarrow> i < length xs \<Longrightarrow> length (trailing_window xs w i) = w"
  by (simp add: trailing_window_def)

lemma window_backwards:
  assumes "w \<le> i + 1" "i < length xs"
  shows "map (\<lambda>k. xs ! (i - k)) [0..<w] = rev (trailing_window xs w i)"
proof (rule nth_equalityI)
  show "length (map (\<lambda>k. xs ! (i - k)) [0..<w]) = length (rev (trailing_window xs w i))"
    using assms by (simp add: length_window)
next
  fix k
  assume "k < length (map (\<lambda>k. xs ! (i - k)) [0..<w])"
  then have k: "k < w" by simp
  have "rev (trailing_window xs w i) ! k = trailing_window xs w i ! (w - Suc k)"
    using k assms by (simp add: rev_nth length_window)
  also have "\<dots> = xs ! (i + 1 - w + (w - Suc k))"
    using k assms by (simp add: trailing_window_def)
  also have "i + 1 - w + (w - Suc k) = i - k" using k assms by simp
  finally show "map (\<lambda>k. xs ! (i - k)) [0..<w] ! k = rev (trailing_window xs w i) ! k"
    using k by simp
qed

lemma sum_list_backwards:
  fixes f :: "real \<Rightarrow> real"
  assumes "w \<le> i + 1" "i < length xs"
  shows "sum_list (map (\<lambda>k. f (xs ! (i - k))) [0..<w]) = sum_list (map f (trailing_window xs w i))"
proof -
  have "map (\<lambda>k. f (xs ! (i - k))) [0..<w] = map f (map (\<lambda>k. xs ! (i - k)) [0..<w])"
    by simp
  also have "\<dots> = rev (map f (trailing_window xs w i))"
    by (simp only: window_backwards [OF assms] rev_map)
  finally show ?thesis by (simp only: sum_list_rev)
qed

lemma upt_nat_step: "0 \<le> j \<Longrightarrow> j < period \<Longrightarrow>
  [nat j..<nat period] = nat j # [nat (j + 1)..<nat period]"
  by (simp add: upt_conv_Cons nat_add_distrib)

lemma sum_loop_sum:
  "0 \<le> j \<Longrightarrow> nat period \<le> i + 1 \<Longrightarrow> i < length ptr \<Longrightarrow>
   sum_loop ptr i period j acc =
     Inr (acc + sum_list (map (\<lambda>k. ptr ! (i - k)) [nat j..<nat period]))"
proof (induction ptr i period j acc rule: sum_loop.induct)
  case (1 ptr i period j acc)
  show ?case
  proof (cases "j < period")
    case False
    then show ?thesis using "1.prems"(1) by (simp add: sum_loop.simps [of ptr i period j])
  next
    case True
    have inb: "0 \<le> j \<and> nat j \<le> i \<and> i - nat j < length ptr"
      using True "1.prems" by auto
    have "sum_loop ptr i period (j + 1) (acc + ptr ! (i - nat j)) =
        Inr (acc + ptr ! (i - nat j) + sum_list (map (\<lambda>k. ptr ! (i - k)) [nat (j + 1)..<nat period]))"
      using "1.prems" by (intro "1.IH" [OF True inb]) simp_all
    then show ?thesis
      using True inb by (simp add: sum_loop.simps [of ptr i period j] upt_nat_step [OF "1.prems"(1) True])
  qed
qed

lemma variance_loop_sum:
  "0 \<le> j \<Longrightarrow> nat period \<le> i + 1 \<Longrightarrow> i < length ptr \<Longrightarrow>
   variance_loop ptr i period m j acc =
     Inr (acc + sum_list (map (\<lambda>k. (ptr ! (i - k) - m) * (ptr ! (i - k) - m)) [nat j..<nat period]))"
proof (induction ptr i period m j acc rule: variance_loop.induct)
  case (1 ptr i period m j acc)
  show ?case
  proof (cases "j < period")
    case False
    then show ?thesis using "1.prems"(1) by (simp add: variance_loop.simps [of ptr i period m j])
  next
    case True
    have inb: "0 \<le> j \<and> nat j \<le> i \<and> i - nat j < length ptr"
      using True "1.prems" by auto
    have "variance_loop ptr i period m (j + 1)
            (acc + (ptr ! (i - nat j) - m) * (ptr ! (i - nat j) - m)) =
        Inr (acc + (ptr ! (i - nat j) - m) * (ptr ! (i - nat j) - m)
          + sum_list (map (\<lambda>k. (ptr ! (i - k) - m) * (ptr ! (i - k) - m)) [nat (j + 1)..<nat period]))"
      using "1.prems" by (intro "1.IH" [OF True inb refl]) simp_all
    then show ?thesis
      using True inb
      by (simp add: variance_loop.simps [of ptr i period m j] Let_def
          upt_nat_step [OF "1.prems"(1) True])
  qed
qed

lemma bollinger_body_window:
  assumes "1 \<le> period" "nat period \<le> i + 1" "i < length ptr"
  shows "bollinger_body ptr period num_std i =
     Inr (mean (trailing_window ptr (nat period) i),
          mean (trailing_window ptr (nat period) i) + num_std * population_std (trailing_window ptr (nat period) i),
          mean (trailing_window ptr (nat period) i) - num_std * population_std (trailing_window ptr (nat period) i))"
proof -
  let ?w = "trailing_window ptr (nat period) i"
  have len: "real (length ?w) = real_of_int period"
    using assms by (simp add: length_window)
  have ne: "real_of_int period \<noteq> 0" using assms(1) by simp
  have s: "sum_loop ptr i period 0 0 = Inr (sum_list ?w)"
    using sum_loop_sum [of 0 period i ptr 0] assms(2,3)
      sum_list_backwards [OF assms(2,3), of "\<lambda>x. x"] by simp
  have m: "fdiv (sum_list ?w) (real_of_int period) = Inr (mean ?w)"
    using ne by (simp add: fdiv_def mean_def len)
  have v: "variance_loop ptr i period (mean ?w) 0 0 =
      Inr (sum_list (map (\<lambda>x. (x - mean ?w) * (x - mean ?w)) ?w))"
    using variance_loop_sum [of 0 period i ptr "mean ?w" 0] assms(2,3)
      sum_list_backwards [OF assms(2,3), of "\<lambda>x. (x - mean ?w) * (x - mean ?w)"] by simp
  have q: "fdiv (sum_list (map (\<lambda>x. (x - mean ?w) * (x - mean ?w)) ?w)) (real_of_int period) =
      Inr (sum_list (map (\<lambda>x. (x - mean ?w) * (x - mean ?w)) ?w) / real (length ?w))"
    using ne by (simp add: fdiv_def len)
  show ?thesis
    by (simp add: bollinger_body_def s m v q population_std_def Let_def)
qed

lemma bollinger_loop_props:
  "1 \<le> period \<Longrightarrow> nat period \<le> i + 1 \<Longrightarrow>
   length ms = length ptr \<Longrightarrow> length us = length ptr \<Longrightarrow> length ls = length ptr \<Longrightarrow>
   \<exists>m u l. bollinger_loop ptr period num_std i ms us ls = Inr (m, u, l)
     \<and> length m = length ptr \<and> length u = length ptr \<and> length l = length ptr
     \<and> (\<forall>j<i. m ! j = ms ! j \<and> u ! j = us ! j \<and> l ! j = ls ! j)
     \<and> (\<forall>j. i \<le> j \<and> j < length ptr \<longrightarrow>
           bollinger_body ptr period num_std j = Inr (m ! j, u ! j, l ! j))"
proof (induction ptr period num_std i ms us ls rule: bollinger_loop.induct)
  case (1 ptr period num_std i ms us ls)
  show ?case
  proof (cases "i < length ptr")
    case False
    with "1.prems" show ?thesis by (auto simp: bollinger_loop.simps [of ptr period num_std i])
  next
    case True
    obtain bm bu bl where body: "bollinger_body ptr period num_std i = Inr (bm, bu, bl)"
      using bollinger_body_window [OF "1.prems"(1,2) True] by blast
    have "\<exists>m u l. bollinger_loop ptr period num_std (i + 1)
            (ms[i := bm]) (us[i := bu]) (ls[i := bl]) = Inr (m, u, l)
     \<and> length m = length ptr \<and> length u = length ptr \<and> length l = length ptr
     \<and> (\<forall>j<i + 1. m ! j = ms[i := bm] ! j \<and> u ! j = us[i := bu] ! j \<and> l ! j = ls[i := bl] ! j)
     \<and> (\<forall>j. i + 1 \<le> j \<and> j < length ptr \<longrightarrow>
           bollinger_body ptr period num_std j = Inr (m ! j, u ! j, l ! j))"
      using "1.prems" by (intro "1.IH" [OF True body refl refl]) simp_all
    then obtain m u l where r:
      "bollinger_loop ptr period num_std (i + 1)
            (ms[i := bm]) (us[i := bu]) (ls[i := bl]) = Inr (m, u, l)"
      "length m = length ptr" "length u = length ptr" "length l = length ptr"
      "\<forall>j<i + 1. m ! j = ms[i := bm] ! j \<and> u ! j = us[i := bu] ! j \<and> l ! j = ls[i := bl] ! j"
      "\<forall>j. i + 1 \<le> j \<and> j < length ptr \<longrightarrow>
           bollinger_body ptr period num_std j = Inr (m ! j, u ! j, l ! j)"
      by blast
    have run: "bollinger_loop ptr period num_std i ms us ls = Inr (m, u, l)"
      using True body r(1) by (simp add: bollinger_loop.simps [of ptr period num_std i])
    have before: "\<forall>j<i. m ! j = ms ! j \<and> u ! j = us ! j \<and> l ! j = ls ! j"
      using r(5) by simp
    have at_i: "m ! i = bm \<and> u ! i = bu \<and> l ! i = bl"
      using r(5) True "1.prems"(3,4,5) by simp
    have from_i: "\<forall>j. i \<le> j \<and> j < length ptr \<longrightarrow>
           bollinger_body ptr period num_std j = Inr (m ! j, u ! j, l ! j)"
    proof (intro allI impI)
      fix j assume j: "i \<le> j \<and> j < length ptr"
      show "bollinger_body ptr period num_std j = Inr (m ! j, u ! j, l ! j)"
      proof (cases "j = i")
        case True
        with body at_i show ?thesis by simp
      next
        case False
        with j r(6) show ?thesis by simp
      qed
    qed
    from run r(2,3,4) before from_i show ?thesis by blast
  qed
qed

lemma calculate_bollinger_props:
  assumes "is_c_int period" "1 \<le> period"
  shows "\<exists>bb. calculate_bollinger_bands prices period num_std = Inr bb
     \<and> length (upper bb) = length prices \<and> length (middle bb) = length prices
     \<and> length (lower bb) = length prices
     \<and> (\<forall>j. j + 1 < nat period \<and> j < length prices \<longrightarrow>
           upper bb ! j = 0 \<and> middle bb ! j = 0 \<and> lower bb ! j = 0)
     \<and> (\<forall>j. nat period \<le> j + 1 \<and> j < length prices \<longrightarrow>
           bollinger_body prices period num_std j = Inr (middle bb ! j, upper bb ! j, lower bb ! j))"
proof -
  define n where "n = length prices"
  define i0 where "i0 = nat (period - 1)"
  have start: "size_t_of_int (period - 1) = i0"
    using assms by (simp add: size_t_of_int_def is_c_int_def i0_def)
  have i0: "nat period \<le> i0 + 1" "i0 + 1 = nat period" using assms(2) by (simp_all add: i0_def)
  obtain m u l where r:
    "bollinger_loop prices period num_std i0 (replicate n 0) (replicate n 0) (replicate n 0)
       = Inr (m, u, l)"
    "length m = length prices" "length u = length prices" "length l = length prices"
    "\<forall>j<i0. m ! j = replicate n 0 ! j \<and> u ! j = replicate n 0 ! j \<and> l ! j = replicate n 0 ! j"
    "\<forall>j. i0 \<le> j \<and> j < length prices \<longrightarrow>
           bollinger_body prices period num_std j = Inr (m ! j, u ! j, l ! j)"
    using bollinger_loop_props [OF assms(2) i0(1), of "replicate n 0" prices "replicate n 0"
        "replicate n 0" num_std]
    by (auto simp: n_def)
  have run: "calculate_bollinger_bands prices period num_std
      = Inr \<lparr>upper = u, middle = m, lower = l\<rparr>"
    using r(1) by (simp add: calculate_bollinger_bands_def start n_def [symmetric])
  have zero: "\<forall>j. j + 1 < nat period \<and> j < length prices \<longrightarrow> u ! j = 0 \<and> m ! j = 0 \<and> l ! j = 0"
    using r(5) i0(2) by (auto simp: n_def)
  have full: "\<forall>j. nat period \<le> j + 1 \<and> j < length prices \<longrightarrow>
           bollinger_body prices period num_std j = Inr (m ! j, u ! j, l ! j)"
    using r(6) i0(2) by auto
  from run r(2,3,4) zero full show ?thesis by simp
qed

text \<open>
  Claim C8. For every price series, every period of at least \<open>1\<close> and every index \<open>i\<close> at
  which a full trailing window of \<open>period\<close> prices is available, the middle output of
  \<open>calculate_bollinger_bands\<close> at \<open>i\<close> is the simple mean of that window, and the upper
  and lower outputs are the mean plus and minus \<open>num_std\<close> times the population
  standard deviation of the window (squared deviations divided by the window length).
\<close>

theorem bollinger_window_statistics:
  assumes "is_c_int period" "1 \<le> period" "nat period \<le> i + 1" "i < length prices"
  shows "\<exists>bb. calculate_bollinger_bands prices period num_std = Inr bb
     \<and> middle bb ! i = mean (trailing_window prices (nat period) i)
     \<and> upper bb ! i = mean (trailing_window prices (nat period) i)
          + num_std * population_std (trailing_window prices (nat period) i)
     \<and> lower bb ! i = mean (trailing_window prices (nat period) i)
          - num_std * population_std (trailing_window prices (nat period) i)"
proof -
  obtain bb where bb: "calculate_bollinger_bands prices period num_std = Inr bb"
    "\<forall>j. nat period \<le> j + 1 \<and> j < length prices \<longrightarrow>
           bollinger_body prices period num_std j = Inr (middle bb ! j, upper bb ! j, lower bb ! j)"
    using calculate_bollinger_props [OF assms(1,2), of prices num_std] by blast
  from bb(2) assms(3,4)
  have "bollinger_body prices period num_std i = Inr (middle bb ! i, upper bb ! i, lower bb ! i)"
    by blast
  with bollinger_body_window [OF assms(2,3,4), of num_std] bb(1) show ?thesis by auto
qed

lemma window_example: "trailing_window [1, 1, 1, 5, 5] 2 3 = [1, 5]"
  by (simp add: trailing_window_def)

theorem bollinger_window_statistics_witness:
  "is_c_int 2 \<and> (1::int) \<le> 2 \<and> nat 2 \<le> 3 + 1 \<and> 3 < length [1, 1, 1, 5, 5 :: real]
   \<and> (\<exists>bb. calculate_bollinger_bands [1, 1, 1, 5, 5] 2 2 = Inr bb
        \<and> middle bb ! 3 = 3 \<and> upper bb ! 3 = 7 \<and> lower bb ! 3 = - 1)"
proof -
  have h: "is_c_int 2" "(1::int) \<le> 2" "nat 2 \<le> 3 + 1" "3 < length [1, 1, 1, 5, 5 :: real]"
    by (simp_all add: is_c_int_def)
  have m: "mean [1, 5] = 3" by (simp add: mean_def)
  have four: "sqrt 4 = 2" using real_sqrt_abs [of 2] by simp
  have s: "population_std [1, 5] = 2" by (simp add: population_std_def m four)
  from bollinger_window_statistics [OF h, of 2] h show ?thesis
    by (simp add: window_example m s)
qed

section \<open>The rolling correlation\<close>








section \<open>Lengths and placeholders of the indicator outputs\<close>







section \<open>The rounding of double arithmetic\<close>










lemma ieee_round_zero [simp]: "ieee_round 0 = 0"
  by (simp add: ieee_round_def)






lemma OVERFLOW_big: "2 ^ 1023 < OVERFLOW"
  by (simp add: OVERFLOW_def)





section \<open>The oscillator in double arithmetic\<close>


























section \<open>The guard of the rolling correlation in double arithmetic\<close>















end
